theory Spec2Isabelle
  imports Complex_Main "HOL-Library.Char_ord" "HOL-Library.List_Lexorder"
begin

section \<open>The finite-volume cell integrator \<open>fvm_cell\<close>\<close>

text \<open>
  The class \<open>fvm_cell<T, I>\<close> is a template over the value type \<open>T\<close> and the index
  type \<open>I\<close>. The embedding instantiates \<open>T\<close> with the exact reals and \<open>I\<close> with the
  natural numbers (indices are bounded by the number of control volumes), so every
  statement below is about exact arithmetic; rounding of a floating-point \<open>T\<close> is
  outside the model.

  Members of the class are named with a trailing underscore in the source
  (\<open>t_\<close>, \<open>matrix_\<close>, \<open>voltage_\<close>, ...); the record fields drop it or carry the
  prefix \<open>cell_\<close>.
\<close>

subsection \<open>Errors\<close>

text \<open>
  The constructor throws \<open>std::domain_error\<close> for a malformed morphology
  (\<open>MorphologyError\<close>). The other three are the run-time failures of the collaborators
  whose code is not part of the integrator: a zero pivot in the matrix solve, a
  failing stimulus amplitude, and an event whose target the synapse mechanism
  does not know.
\<close>

datatype error = MorphologyError | NumericalError | StimulusError | OutOfRangeTarget

subsection \<open>Vectors and views\<close>

text \<open>\<open>x(all) = c\<close>: every element of the view is overwritten with the scalar.\<close>

definition assign_const :: "'a list \<Rightarrow> 'a \<Rightarrow> 'a list" where
  "assign_const x c = map (\<lambda>_. c) x"

text \<open>\<open>x(all) = y\<close>: element-wise copy into the storage of \<open>x\<close>, which keeps its size.\<close>

definition assign_all :: "'a list \<Rightarrow> 'a list \<Rightarrow> 'a list" where
  "assign_all x y = map (\<lambda>i. y ! i) [0..<length x]"

subsection \<open>Ion species\<close>

text \<open>
  Modelled from the spec: \<open>ion.hpp\<close> is missing. An ion kind is one of \<open>Na\<close>, \<open>K\<close>,
  \<open>Ca\<close>; the ion state holds a CV index list and the vectors \<open>E\<close>, \<open>Xi\<close>, \<open>Xo\<close>
  allocated over that list. A default-constructed ion is empty.
\<close>

datatype ionKind = ionKind_ca | ionKind_na | ionKind_k

definition ion_kinds :: "ionKind list" where
  "ion_kinds = [ionKind_ca, ionKind_na, ionKind_k]"

record ion =
  ion_node_index :: "nat list"
  reversal_potential :: "real list"
  internal_concentration :: "real list"
  external_concentration :: "real list"

definition new_ion :: "nat list \<Rightarrow> ion" where
  "new_ion idx =
     \<lparr> ion_node_index = idx,
       reversal_potential = replicate (length idx) 0,
       internal_concentration = replicate (length idx) 0,
       external_concentration = replicate (length idx) 0 \<rparr>"

definition default_ion :: ion where
  "default_ion = new_ion []"

type_synonym ion_map = "ionKind \<Rightarrow> ion option"

text \<open>\<open>std::map::emplace\<close> inserts only when the key is absent.\<close>

definition emplace :: "ion_map \<Rightarrow> ionKind \<Rightarrow> ion \<Rightarrow> ion_map" where
  "emplace m key v = (case m key of None \<Rightarrow> m(key \<mapsto> v) | Some _ \<Rightarrow> m)"

text \<open>
  \<open>std::map::operator[]\<close> default-constructs the entry when the key is absent. The
  reference it returns is the entry of the map under that key; the function returns
  the map after the access.
\<close>

definition subscript :: "ion_map \<Rightarrow> ionKind \<Rightarrow> ion_map" where
  "subscript m key = (case m key of None \<Rightarrow> m(key \<mapsto> default_ion) | Some _ \<Rightarrow> m)"

subsection \<open>Mechanisms\<close>

text \<open>
  Modelled from the spec: \<open>mechanism.hpp\<close> and the mechanism implementations are
  missing. A mechanism instance is bound to a CV index list, has private state of
  type \<open>'m\<close>, and carries its virtual methods as fields. \<open>nrn_current\<close>
  (\<open>compute_current\<close>) and \<open>nrn_state\<close> (\<open>advance_state\<close>) are given the
  instance's index list and the voltage, and work on the private state, the shared
  current vector and the shared ion state; mechanisms never write the voltage.
  \<open>net_receive\<close> fails on an unknown target. A reference to the cell-wide state of
  ion \<open>k\<close>, as handed over by \<open>set_ion\<close>, is the key of that entry in the ion map.
\<close>

type_synonym 'm shared = "'m \<times> real list \<times> ion_map"

record 'm mechanism =
  node_index :: "nat list"
  uses_ion :: "ionKind \<Rightarrow> bool"
  ion_ref :: "ionKind \<Rightarrow> ionKind option"
  areas_ref :: bool
  mstate :: 'm
  set_params :: "real \<Rightarrow> real \<Rightarrow> 'm \<Rightarrow> 'm"
  nrn_current :: "nat list \<Rightarrow> real list \<Rightarrow> 'm shared \<Rightarrow> 'm shared"
  nrn_state :: "nat list \<Rightarrow> real list \<Rightarrow> 'm shared \<Rightarrow> 'm shared"
  net_receive :: "nat \<Rightarrow> real \<Rightarrow> 'm \<Rightarrow> error + 'm"

definition set_ion :: "ionKind \<Rightarrow> ionKind \<Rightarrow> 'm mechanism \<Rightarrow> 'm mechanism" where
  "set_ion kind ref m = m\<lparr>ion_ref := (ion_ref m)(kind \<mapsto> ref)\<rparr>"

definition set_areas :: "'m mechanism \<Rightarrow> 'm mechanism" where
  "set_areas m = m\<lparr>areas_ref := True\<rparr>"

subsection \<open>Stimuli and events\<close>

text \<open>
  Modelled from the spec: \<open>stimulus.hpp\<close> and \<open>event_queue.hpp\<close> are missing. A
  current clamp is its time-dependent amplitude function, whose evaluation may
  fail. An event is \<open>(time, target, weight)\<close>; the queue hands out the earliest
  event, ties broken by target and then weight, and \<open>pop_if_before t\<close> pops it only
  if its time is strictly less than \<open>t\<close>.
\<close>

type_synonym i_clamp = "real \<Rightarrow> error + real"

record event =
  ev_time :: real
  ev_target :: nat
  ev_weight :: real

definition event_less :: "event \<Rightarrow> event \<Rightarrow> bool" where
  "event_less a b \<longleftrightarrow>
     ev_time a < ev_time b \<or>
     (ev_time a = ev_time b \<and>
       (ev_target a < ev_target b \<or>
        (ev_target a = ev_target b \<and> ev_weight a < ev_weight b)))"

fun earliest :: "event \<Rightarrow> event list \<Rightarrow> event" where
  "earliest e [] = e"
| "earliest e (x # xs) = earliest (if event_less x e then x else e) xs"

definition pop_if_before :: "real \<Rightarrow> event list \<Rightarrow> event option \<times> event list" where
  "pop_if_before tm q =
     (case q of
        [] \<Rightarrow> (None, q)
      | x # xs \<Rightarrow>
          (let e = earliest x xs
           in if ev_time e < tm then (Some e, remove1 e q) else (None, q)))"

subsection \<open>The tree matrix\<close>

text \<open>
  The storage of the matrix: \<open>d[i]\<close> is the diagonal entry of row \<open>i\<close>, and for a
  CV \<open>i\<close> with parent \<open>j = p[i]\<close>, \<open>l[i]\<close> is the entry in row \<open>i\<close>, column \<open>j\<close>
  and \<open>u[i]\<close> the entry in row \<open>j\<close>, column \<open>i\<close>.
\<close>

record matrix =
  mat_l :: "real list"
  mat_d :: "real list"
  mat_u :: "real list"
  mat_rhs :: "real list"
  mat_p :: "nat list"

text \<open>
  Modelled from the spec: \<open>matrix.hpp\<close> is missing. \<open>solve\<close> is the Hines elimination:
  a reverse sweep \<open>i = N-1 \<dots> 1\<close> eliminates the entries of the children from the
  rows of their parents, then a forward sweep \<open>i = 1 \<dots> N-1\<close> substitutes back. It
  overwrites \<open>rhs\<close> with the solution and fails only when a diagonal entry is zero;
  the matrix as it is at the failure comes with the error.
\<close>

definition eliminate :: "nat \<Rightarrow> matrix \<Rightarrow> matrix" where
  "eliminate i m =
     (let factor = mat_u m ! i / mat_d m ! i;
          j = mat_p m ! i
      in m\<lparr> mat_d := (mat_d m)[j := mat_d m ! j - factor * mat_l m ! i],
             mat_rhs := (mat_rhs m)[j := mat_rhs m ! j - factor * mat_rhs m ! i] \<rparr>)"

fun backward_sweep :: "nat list \<Rightarrow> matrix \<Rightarrow> (error \<times> matrix) + matrix" where
  "backward_sweep [] m = Inr m"
| "backward_sweep (i # rest) m =
     (if mat_d m ! i = 0 then Inl (NumericalError, m)
      else backward_sweep rest (eliminate i m))"

definition substitute :: "nat \<Rightarrow> matrix \<Rightarrow> matrix" where
  "substitute i m =
     m\<lparr> mat_rhs := (mat_rhs m)[i :=
          (mat_rhs m ! i - mat_l m ! i * mat_rhs m ! (mat_p m ! i)) / mat_d m ! i] \<rparr>"

definition solve :: "matrix \<Rightarrow> (error \<times> matrix) + matrix" where
  "solve m =
     (let n = length (mat_d m)
      in if n = 0 then Inr m
         else case backward_sweep (rev [1..<n]) m of
                Inl x \<Rightarrow> Inl x
              | Inr m1 \<Rightarrow>
                  if mat_d m1 ! 0 = 0 then Inl (NumericalError, m1)
                  else Inr (fold substitute [1..<n]
                         (m1\<lparr>mat_rhs := (mat_rhs m1)[0 := mat_rhs m1 ! 0 / mat_d m1 ! 0]\<rparr>)))"

subsection \<open>The state of the integrator\<close>

record 'm fvm_cell =
  cell_t :: real
  cell_matrix :: matrix
  cv_areas :: "real list"
  face_alpha :: "real list"
  cv_capacitance :: "real list"
  cell_current :: "real list"
  cell_voltage :: "real list"
  synapse_index :: nat
  mechanisms :: "'m mechanism list"
  ions :: ion_map
  stimulii :: "(nat \<times> i_clamp) list"
  events :: "event list"

text \<open>An outcome is the new state, or the error thrown together with the state it leaves behind.\<close>

type_synonym 'm outcome = "(error \<times> 'm fvm_cell) + 'm fvm_cell"

subsection \<open>\<open>setup_matrix\<close>\<close>

text \<open>The body of the first loop, \<open>for (i = 1; i < d.size(); ++i)\<close>.\<close>

definition diag_step :: "real \<Rightarrow> real list \<Rightarrow> nat \<Rightarrow> matrix \<Rightarrow> matrix" where
  "diag_step dt alpha i m =
     (let a = 100000 * dt * alpha ! i;
          m1 = m\<lparr>mat_d := (mat_d m)[i := mat_d m ! i + a]\<rparr>;
          m2 = m1\<lparr>mat_l := (mat_l m1)[i := - a]\<rparr>;
          m3 = m2\<lparr>mat_u := (mat_u m2)[i := - a]\<rparr>;
          j = mat_p m3 ! i
      in m3\<lparr>mat_d := (mat_d m3)[j := mat_d m3 ! j + a]\<rparr>)"

text \<open>The body of the second loop, \<open>for (i = 0; i < d.size(); ++i)\<close>.\<close>

definition rhs_step :: "real \<Rightarrow> 'm fvm_cell \<Rightarrow> nat \<Rightarrow> matrix \<Rightarrow> matrix" where
  "rhs_step factor s i m =
     m\<lparr>mat_rhs := (mat_rhs m)[i :=
         cv_areas s ! i * (cell_voltage s ! i - factor / cv_capacitance s ! i * cell_current s ! i)]\<rparr>"

definition setup_matrix :: "real \<Rightarrow> 'm fvm_cell \<Rightarrow> 'm fvm_cell" where
  "setup_matrix dt s =
     (let m0 = (cell_matrix s)\<lparr>mat_d := assign_all (mat_d (cell_matrix s)) (cv_areas s)\<rparr>;
          m1 = fold (diag_step dt (face_alpha s)) [1..<length (mat_d m0)] m0;
          factor = 10 * dt;
          m2 = fold (rhs_step factor s) [0..<length (mat_d m1)] m1
      in s\<lparr>cell_matrix := m2\<rparr>)"

subsection \<open>\<open>advance\<close>\<close>

text \<open>The body of \<open>for (auto& m : mechanisms_) { m->set_params(t_, dt); m->nrn_current(); }\<close>.\<close>

definition mech_current :: "real \<Rightarrow> nat \<Rightarrow> 'm fvm_cell \<Rightarrow> 'm fvm_cell" where
  "mech_current dt i s =
     (let m = mechanisms s ! i;
          st = set_params m (cell_t s) dt (mstate m);
          r = nrn_current m (node_index m) (cell_voltage s) (st, cell_current s, ions s)
      in s\<lparr> mechanisms := (mechanisms s)[i := m\<lparr>mstate := fst r\<rparr>],
             cell_current := fst (snd r),
             ions := snd (snd r) \<rparr>)"

text \<open>The body of \<open>for (auto& m : mechanisms_) { m->nrn_state(); }\<close>.\<close>

definition mech_state :: "nat \<Rightarrow> 'm fvm_cell \<Rightarrow> 'm fvm_cell" where
  "mech_state i s =
     (let m = mechanisms s ! i;
          r = nrn_state m (node_index m) (cell_voltage s) (mstate m, cell_current s, ions s)
      in s\<lparr> mechanisms := (mechanisms s)[i := m\<lparr>mstate := fst r\<rparr>],
             cell_current := fst (snd r),
             ions := snd (snd r) \<rparr>)"

text \<open>The loop over the stimuli; an amplitude that fails ends the step.\<close>

fun stim_loop :: "(nat \<times> i_clamp) list \<Rightarrow> 'm fvm_cell \<Rightarrow> 'm outcome" where
  "stim_loop [] s = Inr s"
| "stim_loop (stim # rest) s =
     (case snd stim (cell_t s) of
        Inl e \<Rightarrow> Inl (e, s)
      | Inr ie \<Rightarrow>
          (let loc = fst stim
           in stim_loop rest
                (s\<lparr>cell_current := (cell_current s)
                     [loc := cell_current s ! loc - 100 * ie / cv_areas s ! loc]\<rparr>)))"

definition advance :: "real \<Rightarrow> 'm fvm_cell \<Rightarrow> 'm outcome" where
  "advance dt s =
     (let s1 = s\<lparr>cell_current := assign_const (cell_current s) 0\<rparr>;
          s2 = fold (mech_current dt) [0..<length (mechanisms s1)] s1
      in case stim_loop (stimulii s2) s2 of
           Inl x \<Rightarrow> Inl x
         | Inr s3 \<Rightarrow>
             (let s4 = setup_matrix dt s3
              in case solve (cell_matrix s4) of
                   Inl x \<Rightarrow> Inl (fst x, s4\<lparr>cell_matrix := snd x\<rparr>)
                 | Inr m \<Rightarrow>
                     (let s5 = s4\<lparr>cell_matrix := m\<rparr>;
                          s6 = s5\<lparr>cell_voltage :=
                                  assign_all (cell_voltage s5) (mat_rhs (cell_matrix s5))\<rparr>;
                          s7 = fold mech_state [0..<length (mechanisms s6)] s6
                      in Inr (s7\<lparr>cell_t := cell_t s7 + dt\<rparr>))))"

subsection \<open>\<open>advance_to\<close>\<close>

text \<open>
  The calls that \<open>advance_to\<close> makes are recorded in a trace, so that the order and
  the times of the sub-steps can be stated: \<open>Advance t h q\<close> is the call
  \<open>advance(h)\<close> made at cell time \<open>t\<close> with the events \<open>q\<close> still queued, and
  \<open>NetReceive t e\<close> is the dispatch of the event \<open>e\<close> to the synapse mechanism at
  cell time \<open>t\<close>. The trace has no influence on the state.
\<close>

datatype call = Advance real real "event list" | NetReceive real event

text \<open>One pass through the body of the \<open>do { ... } while (t_ < tfinal)\<close> loop.\<close>

definition advance_to_body ::
  "real \<Rightarrow> real \<Rightarrow> call list \<Rightarrow> 'm fvm_cell \<Rightarrow> call list \<times> 'm outcome" where
  "advance_to_body tfinal dt tr s =
     (let tnext = min tfinal (cell_t s + dt);
          next = pop_if_before tnext (events s);
          s0 = s\<lparr>events := snd next\<rparr>;
          tnext = (case fst next of Some e \<Rightarrow> ev_time e | None \<Rightarrow> tnext);
          tr1 = tr @ [Advance (cell_t s0) (tnext - cell_t s0) (events s0)]
      in case advance (tnext - cell_t s0) s0 of
           Inl x \<Rightarrow> (tr1, Inl x)
         | Inr s1 \<Rightarrow>
             (let s2 = s1\<lparr>cell_t := tnext\<rparr>
              in case fst next of
                   None \<Rightarrow> (tr1, Inr s2)
                 | Some e \<Rightarrow>
                     (let tr2 = tr1 @ [NetReceive (cell_t s2) e];
                          i = synapse_index s2;
                          m = mechanisms s2 ! i
                      in case net_receive m (ev_target e) (ev_weight e) (mstate m) of
                           Inl err \<Rightarrow> (tr2, Inl (err, s2))
                         | Inr st \<Rightarrow>
                             (tr2, Inr (s2\<lparr>mechanisms :=
                                           (mechanisms s2)[i := m\<lparr>mstate := st\<rparr>]\<rparr>)))))"

text \<open>
  The loop need not end (a step size \<open>dt \<le> 0\<close> never reaches \<open>tfinal\<close>), so its
  result is optional: \<open>None\<close> is a loop that runs forever.
\<close>

partial_function (option) advance_to_loop ::
  "real \<Rightarrow> real \<Rightarrow> call list \<Rightarrow> 'm fvm_cell \<Rightarrow> (call list \<times> 'm outcome) option" where
  "advance_to_loop tfinal dt tr s =
     (let r = advance_to_body tfinal dt tr s
      in case snd r of
           Inl x \<Rightarrow> Some r
         | Inr s' \<Rightarrow>
             if cell_t s' < tfinal then advance_to_loop tfinal dt (fst r) s' else Some r)"

definition advance_to ::
  "real \<Rightarrow> real \<Rightarrow> 'm fvm_cell \<Rightarrow> (call list \<times> 'm outcome) option" where
  "advance_to tfinal dt s =
     (if cell_t s \<ge> tfinal then Some ([], Inr s) else advance_to_loop tfinal dt [] s)"

subsection \<open>The cell handed to the constructor\<close>

text \<open>
  Modelled from the spec: \<open>cell.hpp\<close>, \<open>segment.hpp\<close> and \<open>math.hpp\<close> are missing.
  A compartment of a cable has its index within the cable, the radii at its two
  ends and its length. A segment is a soma (with its radius), a cable (with its
  compartments) or of another kind, for which both \<open>as_soma()\<close> and \<open>as_cable()\<close>
  are null; it names its mechanisms and holds the parameters \<open>c_m\<close> and \<open>r_L\<close> of
  its \<open>membrane\<close> mechanism. The cell gives its segments, the number of its
  compartments, the graph of \<open>model()\<close> (parent index and segment index), its
  stimuli and its synapses, both at locations of type \<open>'loc\<close>.
\<close>

record compartment =
  comp_index :: nat
  comp_radius :: "real \<times> real"
  comp_length :: real

datatype segment_body = Soma real | Cable "compartment list" | Placeholder

record segment =
  seg_body :: segment_body
  seg_mechanisms :: "string list"
  seg_c_m :: real
  seg_r_L :: real

record 'loc cell =
  segments :: "segment list"
  num_compartments :: nat
  parent_index :: "nat list"
  segment_index :: "nat list"
  cell_stimulii :: "('loc \<times> i_clamp) list"
  cell_synapses :: "'loc list"

definition area_sphere :: "real \<Rightarrow> real" where
  "area_sphere r = 4 * pi * r\<^sup>2"

definition area_circle :: "real \<Rightarrow> real" where
  "area_circle r = pi * r\<^sup>2"

definition mean :: "real \<times> real \<Rightarrow> real" where
  "mean r = (fst r + snd r) / 2"

text \<open>
  The collaborators of the constructor that are not part of the integrator: the
  catalogue of mechanisms (\<open>get_mechanism_helper(name)->new_mechanism\<close>), the factory
  of the synapse mechanism (\<open>make_mechanism<ExpSyn>\<close>), \<open>find_compartment_index\<close>
  and the area of a frustum. The mechanisms they build are bound to the index list
  they are given.
\<close>

record ('m, 'loc) collaborators =
  get_mechanism_helper :: "string \<Rightarrow> nat list \<Rightarrow> 'm mechanism"
  make_synapse :: "nat list \<Rightarrow> 'm mechanism"
  find_compartment_index :: "'loc \<Rightarrow> nat list \<Rightarrow> nat list \<Rightarrow> nat"
  area_frustrum :: "real \<Rightarrow> real \<Rightarrow> real \<Rightarrow> real"

definition new_mechanism :: "(nat list \<Rightarrow> 'm mechanism) \<Rightarrow> nat list \<Rightarrow> 'm mechanism" where
  "new_mechanism helper idx = (helper idx)\<lparr>node_index := idx\<rparr>"

subsection \<open>The constructor: geometry\<close>

text \<open>\<open>v[i] += x\<close>.\<close>

definition add_at :: "real list \<Rightarrow> nat \<Rightarrow> real \<Rightarrow> real list" where
  "add_at v i x = v[i := v ! i + x]"

text \<open>The body of the loop over the compartments of a cable that starts at CV \<open>start\<close>.\<close>

definition compartment_step ::
  "(real \<Rightarrow> real \<Rightarrow> real \<Rightarrow> real) \<Rightarrow> nat \<Rightarrow> real \<Rightarrow> real \<Rightarrow> compartment \<Rightarrow>
     'm fvm_cell \<Rightarrow> 'm fvm_cell" where
  "compartment_step frustrum start c_m r_L c s =
     (let i = start + comp_index c;
          j = mat_p (cell_matrix s) ! i;
          radius_center = mean (comp_radius c);
          area_face = area_circle radius_center;
          s1 = s\<lparr>face_alpha := (face_alpha s)[i := area_face / (c_m * r_L * comp_length c)]\<rparr>;
          halflen = comp_length c / 2;
          al = frustrum halflen (fst (comp_radius c)) radius_center;
          ar = frustrum halflen (snd (comp_radius c)) radius_center;
          s2 = s1\<lparr>cv_areas := add_at (cv_areas s1) j al\<rparr>;
          s3 = s2\<lparr>cv_areas := add_at (cv_areas s2) i ar\<rparr>;
          s4 = s3\<lparr>cv_capacitance := add_at (cv_capacitance s3) j (al * c_m)\<rparr>
      in s4\<lparr>cv_capacitance := add_at (cv_capacitance s4) i (ar * c_m)\<rparr>)"

text \<open>
  The loop over the segments, with the running \<open>seg_idx\<close>: a soma at a non-zero
  index and a segment that is neither a soma nor a cable throw.
\<close>

fun segment_loop ::
  "(real \<Rightarrow> real \<Rightarrow> real \<Rightarrow> real) \<Rightarrow> nat list \<Rightarrow> nat \<Rightarrow> segment list \<Rightarrow>
     'm fvm_cell \<Rightarrow> error + 'm fvm_cell" where
  "segment_loop frustrum si seg_idx [] s = Inr s"
| "segment_loop frustrum si seg_idx (sg # rest) s =
     (case seg_body sg of
        Soma radius \<Rightarrow>
          if seg_idx \<noteq> 0 then Inl MorphologyError
          else (let area = area_sphere radius;
                    s1 = s\<lparr>cv_areas := add_at (cv_areas s) 0 area\<rparr>;
                    s2 = s1\<lparr>cv_capacitance := add_at (cv_capacitance s1) 0 (area * seg_c_m sg)\<rparr>
                in segment_loop frustrum si (Suc seg_idx) rest s2)
      | Cable compartments \<Rightarrow>
          segment_loop frustrum si (Suc seg_idx) rest
            (fold (compartment_step frustrum (si ! seg_idx) (seg_c_m sg) (seg_r_L sg))
               compartments s)
      | Placeholder \<Rightarrow> Inl MorphologyError)"

text \<open>\<open>for (i = 0; i < size(); ++i) cv_capacitance_[i] /= cv_areas_[i]\<close>.\<close>

definition normalize_capacitance :: "'m fvm_cell \<Rightarrow> 'm fvm_cell" where
  "normalize_capacitance s =
     fold (\<lambda>i s. s\<lparr>cv_capacitance :=
                     (cv_capacitance s)[i := cv_capacitance s ! i / cv_areas s ! i]\<rparr>)
       [0..<length (mat_d (cell_matrix s))] s"

subsection \<open>The constructor: mechanisms\<close>

text \<open>
  \<open>mech_map[name].push_back(i)\<close> on a \<open>std::map\<close> from names to lists of segment
  indices: the map is kept as a list of entries in the order of their keys.
\<close>

fun mech_map_push :: "string \<Rightarrow> nat \<Rightarrow> (string \<times> nat list) list \<Rightarrow> (string \<times> nat list) list" where
  "mech_map_push name i [] = [(name, [i])]"
| "mech_map_push name i (entry # rest) =
     (if name = fst entry then (fst entry, snd entry @ [i]) # rest
      else if name < fst entry then (name, [i]) # entry # rest
      else entry # mech_map_push name i rest)"

definition build_mech_map :: "segment list \<Rightarrow> (string \<times> nat list) list" where
  "build_mech_map segs =
     fold (\<lambda>i mm. fold (\<lambda>name mm. if name \<noteq> ''membrane'' then mech_map_push name i mm else mm)
                      (seg_mechanisms (segs ! i)) mm)
       [0..<length segs] []"

text \<open>
  The indices of the compartments of the segments \<open>segs\<close>: for every segment,
  \<open>std::iota\<close> over \<open>segment_index[seg+1] - segment_index[seg]\<close> entries, starting at
  \<open>segment_index[seg]\<close>.
\<close>

definition compartment_index :: "nat list \<Rightarrow> nat list \<Rightarrow> nat list" where
  "compartment_index si segs =
     concat (map (\<lambda>seg. [si ! seg ..< si ! seg + (si ! (seg + 1) - si ! seg)]) segs)"

definition create_mechanisms ::
  "('m, 'loc) collaborators \<Rightarrow> nat list \<Rightarrow> (string \<times> nat list) list \<Rightarrow> 'm mechanism list" where
  "create_mechanisms X si mech_map =
     fold (\<lambda>mech ms. ms @ [new_mechanism (get_mechanism_helper X (fst mech))
                                (compartment_index si (snd mech))])
       mech_map []"

subsection \<open>The constructor: ion species\<close>

text \<open>
  The \<open>std::set<int>\<close> of the indices of all mechanisms that use the ion, kept as a
  sorted list without duplicates.
\<close>

definition index_set :: "ionKind \<Rightarrow> 'm mechanism list \<Rightarrow> nat list" where
  "index_set ion ms =
     fold (\<lambda>mech st. if uses_ion mech ion then fold insort_insert (node_index mech) st else st)
       ms []"

text \<open>
  The second loop over the mechanisms: \<open>mech->set_ion(ion, ions_[ion])\<close>, where the
  access \<open>ions_[ion]\<close> creates the entry if there is none.
\<close>

definition join_ion :: "ionKind \<Rightarrow> nat \<Rightarrow> 'm fvm_cell \<Rightarrow> 'm fvm_cell" where
  "join_ion ion i s =
     (if uses_ion (mechanisms s ! i) ion
      then s\<lparr> ions := subscript (ions s) ion,
               mechanisms := (mechanisms s)[i := set_ion ion ion (mechanisms s ! i)] \<rparr>
      else s)"

text \<open>The body of \<open>for (auto ion : mechanisms::ion_kinds())\<close>.\<close>

definition ion_step :: "ionKind \<Rightarrow> 'm fvm_cell \<Rightarrow> 'm fvm_cell" where
  "ion_step ion s =
     (let indexes = index_set ion (mechanisms s);
          s1 = (if indexes \<noteq> [] then s\<lparr>ions := emplace (ions s) ion (new_ion indexes)\<rparr> else s)
      in fold (join_ion ion) [0..<length (mechanisms s1)] s1)"

text \<open>
  \<open>ion_na().reversal_potential()(all) = c\<close> and its like: the accessor is
  \<open>ions_[kind]\<close>, which creates the entry if there is none, and the assignment
  overwrites every element of the vector.
\<close>

definition assign_ion :: "ionKind \<Rightarrow> (ion \<Rightarrow> ion) \<Rightarrow> ion_map \<Rightarrow> ion_map" where
  "assign_ion kind f m =
     (let m1 = subscript m kind
      in case m1 kind of None \<Rightarrow> m1 | Some i \<Rightarrow> m1(kind \<mapsto> f i))"

definition set_reversal_potential :: "real \<Rightarrow> ion \<Rightarrow> ion" where
  "set_reversal_potential c i = i\<lparr>reversal_potential := assign_const (reversal_potential i) c\<rparr>"

definition set_internal_concentration :: "real \<Rightarrow> ion \<Rightarrow> ion" where
  "set_internal_concentration c i =
     i\<lparr>internal_concentration := assign_const (internal_concentration i) c\<rparr>"

definition set_external_concentration :: "real \<Rightarrow> ion \<Rightarrow> ion" where
  "set_external_concentration c i =
     i\<lparr>external_concentration := assign_const (external_concentration i) c\<rparr>"

definition DEF_vrest :: real where
  "DEF_vrest = - 65"

definition default_ion_values :: "ion_map \<Rightarrow> ion_map" where
  "default_ion_values m =
     (let m1 = assign_ion ionKind_na (set_reversal_potential (115 + DEF_vrest)) m;
          m2 = assign_ion ionKind_na (set_internal_concentration 10) m1;
          m3 = assign_ion ionKind_na (set_external_concentration 140) m2;
          m4 = assign_ion ionKind_k (set_reversal_potential (- 12 + DEF_vrest)) m3;
          m5 = assign_ion ionKind_k (set_internal_concentration (544 / 10)) m4;
          m6 = assign_ion ionKind_k (set_external_concentration (25 / 10)) m5;
          m7 = assign_ion ionKind_ca (set_reversal_potential (125 / 10 * ln (2 / (5 / 100000)))) m6;
          m8 = assign_ion ionKind_ca (set_internal_concentration (5 / 100000)) m7
      in assign_ion ionKind_ca (set_external_concentration 2) m8)"

subsection \<open>The constructor\<close>

text \<open>
  The members are initialised with \<open>num_compartments\<close> zeros, the matrix is built
  from the parent index, and the body runs: geometry, normalisation of the
  capacitance, mechanisms, ion species and their default values, stimuli, and the
  synapse mechanism, which is appended last and whose position is stored. An
  exception leaves no integrator behind.
\<close>

definition initial_cell :: "'loc cell \<Rightarrow> 'm fvm_cell" where
  "initial_cell c =
     \<lparr> cell_t = 0,
       cell_matrix = \<lparr> mat_l = replicate (length (parent_index c)) 0,
                       mat_d = replicate (length (parent_index c)) 0,
                       mat_u = replicate (length (parent_index c)) 0,
                       mat_rhs = replicate (length (parent_index c)) 0,
                       mat_p = parent_index c \<rparr>,
       cv_areas = replicate (num_compartments c) 0,
       face_alpha = replicate (num_compartments c) 0,
       cv_capacitance = replicate (num_compartments c) 0,
       cell_current = replicate (num_compartments c) 0,
       cell_voltage = replicate (num_compartments c) 0,
       synapse_index = 0, mechanisms = [], ions = Map.empty, stimulii = [], events = [] \<rparr>"

definition add_synapses :: "('m, 'loc) collaborators \<Rightarrow> 'loc cell \<Rightarrow> 'm fvm_cell \<Rightarrow> 'm fvm_cell" where
  "add_synapses X c s =
     (let synapse_indexes =
            fold (\<lambda>loc idx. idx @ [find_compartment_index X loc (parent_index c) (segment_index c)])
              (cell_synapses c) [];
          s1 = s\<lparr>mechanisms := mechanisms s @ [new_mechanism (make_synapse X) synapse_indexes]\<rparr>;
          s2 = s1\<lparr>synapse_index := length (mechanisms s1) - 1\<rparr>
      in s2\<lparr>mechanisms := (mechanisms s2)
                [synapse_index s2 := set_areas (mechanisms s2 ! synapse_index s2)]\<rparr>)"

definition construct :: "('m, 'loc) collaborators \<Rightarrow> 'loc cell \<Rightarrow> error + 'm fvm_cell" where
  "construct X c =
     (case segment_loop (area_frustrum X) (segment_index c) 0 (segments c) (initial_cell c) of
        Inl e \<Rightarrow> Inl e
      | Inr s1 \<Rightarrow>
          (let s2 = normalize_capacitance s1;
               s3 = s2\<lparr>mechanisms :=
                        create_mechanisms X (segment_index c) (build_mech_map (segments c))\<rparr>;
               s4 = fold ion_step ion_kinds s3;
               s5 = s4\<lparr>ions := default_ion_values (ions s4)\<rparr>;
               s6 = s5\<lparr>stimulii :=
                        fold (\<lambda>stim sts. sts @ [(find_compartment_index X (fst stim)
                                                    (parent_index c) (segment_index c), snd stim)])
                          (cell_stimulii c) []\<rparr>
           in Inr (add_synapses X c s6)))"

section \<open>The steps of \<open>advance\<close> as the specification words them\<close>

text \<open>
  Step 2: every mechanism, in the order of the mechanism list, has \<open>set_params(t, dt)\<close>
  and then \<open>compute_current\<close> applied; the current vector and the ion state are
  handed from one mechanism to the next.
\<close>

fun spec_currents ::
  "real \<Rightarrow> real \<Rightarrow> real list \<Rightarrow> 'm mechanism list \<Rightarrow> real list \<times> ion_map \<Rightarrow>
     'm mechanism list \<times> real list \<times> ion_map" where
  "spec_currents tm dt v [] sh = ([], sh)"
| "spec_currents tm dt v (m # ms) sh =
     (let r = nrn_current m (node_index m) v (set_params m tm dt (mstate m), fst sh, snd sh);
          rest = spec_currents tm dt v ms (snd r)
      in (m\<lparr>mstate := fst r\<rparr> # fst rest, snd rest))"

text \<open>Step 6: every mechanism has \<open>advance_state\<close> applied, with the new voltage.\<close>

fun spec_states ::
  "real list \<Rightarrow> 'm mechanism list \<Rightarrow> real list \<times> ion_map \<Rightarrow>
     'm mechanism list \<times> real list \<times> ion_map" where
  "spec_states v [] sh = ([], sh)"
| "spec_states v (m # ms) sh =
     (let r = nrn_state m (node_index m) v (mstate m, fst sh, snd sh);
          rest = spec_states v ms (snd r)
      in (m\<lparr>mstate := fst r\<rparr> # fst rest, snd rest))"

text \<open>Step 3: for each stimulus \<open>(cv, amp_fn)\<close>: \<open>I[cv] -= 100 * amp_fn(t) / A[cv]\<close>.\<close>

fun spec_stimuli ::
  "real \<Rightarrow> real list \<Rightarrow> (nat \<times> i_clamp) list \<Rightarrow> real list \<Rightarrow> (error \<times> real list) + real list" where
  "spec_stimuli tm area [] cur = Inr cur"
| "spec_stimuli tm area ((cv, amp_fn) # rest) cur =
     (case amp_fn tm of
        Inl e \<Rightarrow> Inl (e, cur)
      | Inr amp \<Rightarrow> spec_stimuli tm area rest (cur[cv := cur ! cv - 100 * amp / area ! cv]))"

text \<open>
  Steps 1 to 7 in their order: zero the current, the mechanisms' currents, the
  stimuli, assembly and solve, the voltage overwritten with the solution, the
  mechanisms' states, and the time incremented by \<open>dt\<close>.
\<close>

definition spec_advance :: "real \<Rightarrow> 'm fvm_cell \<Rightarrow> 'm outcome" where
  "spec_advance dt s =
     (let zero = replicate (length (cell_current s)) 0;
          c = spec_currents (cell_t s) dt (cell_voltage s) (mechanisms s) (zero, ions s);
          s2 = s\<lparr>mechanisms := fst c, ions := snd (snd c)\<rparr>
      in case spec_stimuli (cell_t s) (cv_areas s) (stimulii s) (fst (snd c)) of
           Inl x \<Rightarrow> Inl (fst x, s2\<lparr>cell_current := snd x\<rparr>)
         | Inr cur \<Rightarrow>
             (let s4 = setup_matrix dt (s2\<lparr>cell_current := cur\<rparr>)
              in case solve (cell_matrix s4) of
                   Inl x \<Rightarrow> Inl (fst x, s4\<lparr>cell_matrix := snd x\<rparr>)
                 | Inr m \<Rightarrow>
                     (let v = assign_all (cell_voltage s) (mat_rhs m);
                          n = spec_states v (fst c) (cur, snd (snd c))
                      in Inr (s\<lparr> cell_matrix := m, cell_voltage := v, mechanisms := fst n,
                                 cell_current := fst (snd n), ions := snd (snd n),
                                 cell_t := cell_t s + dt \<rparr>))))"

section \<open>Well-formed integrator states and examples\<close>

text \<open>
  All vectors of an integrator with \<open>n\<close> control volumes have \<open>n\<close> entries, and
  every parent index is the index of a control volume.
\<close>

definition well_sized :: "nat \<Rightarrow> 'm fvm_cell \<Rightarrow> bool" where
  "well_sized n s \<longleftrightarrow>
     length (mat_l (cell_matrix s)) = n \<and> length (mat_d (cell_matrix s)) = n \<and>
     length (mat_u (cell_matrix s)) = n \<and> length (mat_rhs (cell_matrix s)) = n \<and>
     length (mat_p (cell_matrix s)) = n \<and> (\<forall>j \<in> set (mat_p (cell_matrix s)). j < n) \<and>
     length (cv_areas s) = n \<and> length (face_alpha s) = n \<and>
     length (cv_capacitance s) = n \<and> length (cell_current s) = n \<and>
     length (cell_voltage s) = n"

text \<open>The sum of \<open>f\<close> over the children of CV \<open>j\<close> among the CVs \<open>1 \<dots> k-1\<close>.\<close>

definition child_sum :: "(nat \<Rightarrow> real) \<Rightarrow> nat list \<Rightarrow> nat \<Rightarrow> nat \<Rightarrow> real" where
  "child_sum f par j k = sum_list (map f (filter (\<lambda>c. par ! c = j) [1..<k]))"

definition diag_inv ::
  "real \<Rightarrow> real list \<Rightarrow> nat \<Rightarrow> matrix \<Rightarrow> nat \<Rightarrow> matrix \<Rightarrow> bool" where
  "diag_inv dt alpha n m0 k m \<longleftrightarrow>
     length (mat_d m) = n \<and> length (mat_l m) = n \<and> length (mat_u m) = n \<and>
     mat_p m = mat_p m0 \<and> mat_rhs m = mat_rhs m0 \<and>
     (\<forall>i<n. mat_d m ! i = mat_d m0 ! i
                + (if 1 \<le> i \<and> i < k then 100000 * dt * alpha ! i else 0)
                + child_sum (\<lambda>c. 100000 * dt * alpha ! c) (mat_p m0) i k) \<and>
     (\<forall>i<n. mat_l m ! i = (if 1 \<le> i \<and> i < k then - (100000 * dt * alpha ! i) else mat_l m0 ! i)) \<and>
     (\<forall>i<n. mat_u m ! i = (if 1 \<le> i \<and> i < k then - (100000 * dt * alpha ! i) else mat_u m0 ! i))"

text \<open>A cable of two control volumes, CV 1 attached to CV 0, with a non-uniform voltage.\<close>

definition cable2 :: "(real \<times> real) fvm_cell" where
  "cable2 =
     \<lparr> cell_t = 0,
       cell_matrix = \<lparr> mat_l = [0, 0], mat_d = [0, 0], mat_u = [0, 0], mat_rhs = [0, 0],
                       mat_p = [0, 0] \<rparr>,
       cv_areas = [1, 1], face_alpha = [0, 1], cv_capacitance = [1, 1],
       cell_current = [0, 0], cell_voltage = [0, 1],
       synapse_index = 0, mechanisms = [], ions = Map.empty, stimulii = [], events = [] \<rparr>"

section \<open>The sub-steps of \<open>advance_to\<close> as the specification words them\<close>

text \<open>
  One pass of the loop at cell time \<open>tm\<close> with the queue \<open>q\<close>: let
  \<open>tnext = min(tfinal, t + dt)\<close>, query \<open>pop_if_before(tnext)\<close>, and if an event is
  returned set \<open>tnext\<close> to its time. The result is \<open>tnext\<close>, the event popped (if
  any) and the queue that is left.
\<close>

definition next_substep ::
  "real \<Rightarrow> real \<Rightarrow> real \<Rightarrow> event list \<Rightarrow> real \<times> event option \<times> event list" where
  "next_substep tfinal dt tm q =
     (let next = pop_if_before (min tfinal (tm + dt)) q
      in (case fst next of Some e \<Rightarrow> ev_time e | None \<Rightarrow> min tfinal (tm + dt), next))"

text \<open>
  The calls of that pass: \<open>advance(tnext - t)\<close>, and then, if an event was popped,
  its dispatch at the time \<open>tnext\<close>.
\<close>

definition substep_calls :: "real \<Rightarrow> real \<times> event option \<times> event list \<Rightarrow> call list" where
  "substep_calls tm ns =
     Advance tm (fst ns - tm) (snd (snd ns)) #
       (case fst (snd ns) of None \<Rightarrow> [] | Some e \<Rightarrow> [NetReceive (fst ns) e])"

text \<open>
  The calls of the whole loop, for a positive step size: passes follow one another
  until the time reached is no longer less than \<open>tfinal\<close>. Every pass either pops
  an event or moves the time forward by \<open>dt\<close>, so the recursion ends.
\<close>

function spec_schedule :: "real \<Rightarrow> real \<Rightarrow> real \<Rightarrow> event list \<Rightarrow> call list" where
  "spec_schedule tfinal dt tm q =
     (if dt \<le> 0 then []
      else (let ns = next_substep tfinal dt tm q
            in substep_calls tm ns @
                 (if fst ns < tfinal then spec_schedule tfinal dt (fst ns) (snd (snd ns)) else [])))"
  by pat_completeness auto
termination
proof (relation "measures [\<lambda>(tfinal, dt, tm, q). length q,
                           \<lambda>(tfinal, dt, tm, q). nat \<lceil>(tfinal - tm) / dt\<rceil>]")
  show "wf (measures [\<lambda>(tfinal, dt, tm, q). length q,
                      \<lambda>(tfinal :: real, dt, tm, q :: event list). nat \<lceil>(tfinal - tm) / dt\<rceil>])"
    by simp
next
  fix tfinal dt tm :: real and q :: "event list" and ns
  assume dt: "\<not> dt \<le> 0" and ns: "ns = next_substep tfinal dt tm q" and lt: "fst ns < tfinal"
  have member: "earliest x xs \<in> set (x # xs)" for x :: event and xs
    by (induction xs arbitrary: x) auto
  consider (event) e where "e \<in> set q" "snd (snd ns) = remove1 e q"
    | (none) "fst ns = min tfinal (tm + dt)" "snd (snd ns) = q"
  proof (cases q)
    case Nil
    then show ?thesis
      using none ns by (simp add: next_substep_def pop_if_before_def)
  next
    case (Cons x xs)
    show ?thesis
    proof (cases "ev_time (earliest x xs) < min tfinal (tm + dt)")
      case True
      then have "ns = (ev_time (earliest x xs), Some (earliest x xs), remove1 (earliest x xs) q)"
        using Cons ns by (simp add: next_substep_def pop_if_before_def Let_def)
      then show ?thesis
        using event [of "earliest x xs"] member [of x xs] Cons by simp
    next
      case False
      then have "ns = (min tfinal (tm + dt), None, q)"
        using Cons ns by (simp add: next_substep_def pop_if_before_def Let_def)
      then show ?thesis
        using none by simp
    qed
  qed
  then show "((tfinal, dt, fst ns, snd (snd ns)), (tfinal, dt, tm, q))
          \<in> measures [\<lambda>(tfinal, dt, tm, q). length q,
                       \<lambda>(tfinal, dt, tm, q). nat \<lceil>(tfinal - tm) / dt\<rceil>]"
  proof cases
    case (event e)
    then have "0 < length q"
      by (cases q) auto
    with event have "length (remove1 e q) < length q"
      by (simp add: length_remove1)
    with event show ?thesis
      by simp
  next
    case none
    then have f: "fst ns = tm + dt" "snd (snd ns) = q" "tm + dt < tfinal"
      using lt by (auto simp: min_def split: if_splits)
    have "(tfinal - (tm + dt)) / dt = (tfinal - tm) / dt - 1"
      using dt by (simp add: field_simps)
    moreover have "1 < (tfinal - tm) / dt"
      using dt f by (simp add: field_simps)
    ultimately have "nat \<lceil>(tfinal - (tm + dt)) / dt\<rceil> < nat \<lceil>(tfinal - tm) / dt\<rceil>"
      by (simp add: less_ceiling_iff) linarith
    then show ?thesis
      using f by simp
  qed
qed

declare spec_schedule.simps [simp del]

text \<open>
  Running the calls of a trace on a state: \<open>advance(h)\<close> followed by \<open>t_ = tnext\<close>,
  and the dispatch of an event to the synapse mechanism.
\<close>

definition dispatch :: "event \<Rightarrow> 'm fvm_cell \<Rightarrow> 'm outcome" where
  "dispatch e s =
     (let i = synapse_index s; m = mechanisms s ! i
      in case net_receive m (ev_target e) (ev_weight e) (mstate m) of
           Inl err \<Rightarrow> Inl (err, s)
         | Inr st \<Rightarrow> Inr (s\<lparr>mechanisms := (mechanisms s)[i := m\<lparr>mstate := st\<rparr>]\<rparr>))"

fun run_call :: "call \<Rightarrow> 'm fvm_cell \<Rightarrow> 'm outcome" where
  "run_call (Advance tm h q) s =
     (case advance h (s\<lparr>events := q\<rparr>) of
        Inl x \<Rightarrow> Inl x
      | Inr s1 \<Rightarrow> Inr (s1\<lparr>cell_t := tm + h\<rparr>))"
| "run_call (NetReceive tm e) s = dispatch e s"

fun run_calls :: "call list \<Rightarrow> 'm fvm_cell \<Rightarrow> 'm outcome" where
  "run_calls [] s = Inr s"
| "run_calls (c # cs) s =
     (case run_call c s of Inl x \<Rightarrow> Inl x | Inr s' \<Rightarrow> run_calls cs s')"

text \<open>
  Every dispatch in a trace follows directly on an \<open>advance\<close> that ends at the
  time of the dispatch, and that time is the time of the event.
\<close>

fun boundaries_ok :: "call list \<Rightarrow> bool" where
  "boundaries_ok [] = True"
| "boundaries_ok (Advance tm h q # NetReceive tm' e # rest) =
     (tm + h = tm' \<and> tm' = ev_time e \<and> boundaries_ok rest)"
| "boundaries_ok (Advance tm h q # rest) = boundaries_ok rest"
| "boundaries_ok (NetReceive tm' e # rest) = False"

text \<open>No event that is still queued lies strictly inside the sub-step.\<close>

fun no_event_inside :: "call \<Rightarrow> bool" where
  "no_event_inside (Advance tm h q) =
     list_all (\<lambda>e. \<not> (tm < ev_time e \<and> ev_time e < tm + h)) q"
| "no_event_inside (NetReceive tm e) = True"

text \<open>The sizes of the sub-steps of a trace, and its deliveries with their times.\<close>

definition step_sizes :: "call list \<Rightarrow> real list" where
  "step_sizes tr = concat (map (\<lambda>c. case c of Advance tm h q \<Rightarrow> [h] | NetReceive tm e \<Rightarrow> []) tr)"

definition deliveries :: "call list \<Rightarrow> (real \<times> event) list" where
  "deliveries tr = concat (map (\<lambda>c. case c of Advance tm h q \<Rightarrow> [] | NetReceive tm e \<Rightarrow> [(tm, e)]) tr)"

definition advance_to_steps :: "real \<Rightarrow> real \<Rightarrow> 'm fvm_cell \<Rightarrow> real list option" where
  "advance_to_steps tfinal dt s = map_option (step_sizes \<circ> fst) (advance_to tfinal dt s)"

section \<open>Morphology and ion species as the specification words them\<close>

text \<open>
  A segment is bad when it is a soma at a non-zero segment index or neither a soma
  nor a cable; a cell is malformed when it has a bad segment, and well formed in
  the sense of the specification when its first segment is a soma and all the
  others are cables.
\<close>

definition bad_segment :: "nat \<Rightarrow> segment \<Rightarrow> bool" where
  "bad_segment i sg =
     (case seg_body sg of Soma r \<Rightarrow> i \<noteq> 0 | Cable cs \<Rightarrow> False | Placeholder \<Rightarrow> True)"

definition malformed :: "'loc cell \<Rightarrow> bool" where
  "malformed c = list_ex (\<lambda>p. bad_segment (fst p) (snd p)) (enumerate 0 (segments c))"

definition is_soma :: "segment \<Rightarrow> bool" where
  "is_soma sg = (case seg_body sg of Soma r \<Rightarrow> True | Cable cs \<Rightarrow> False | Placeholder \<Rightarrow> False)"

definition is_cable :: "segment \<Rightarrow> bool" where
  "is_cable sg = (case seg_body sg of Soma r \<Rightarrow> False | Cable cs \<Rightarrow> True | Placeholder \<Rightarrow> False)"

definition soma_first :: "'loc cell \<Rightarrow> bool" where
  "soma_first c =
     (case segments c of [] \<Rightarrow> False | sg # rest \<Rightarrow> is_soma sg \<and> list_all is_cable rest)"

text \<open>
  The mechanisms of a list that use an ion kind; a mechanism after \<open>set_ion\<close> for
  each of the kinds it uses; the entry of the ion map that the loop over the ion
  kinds leaves for a kind (none when no mechanism uses it); and an entry after the
  assignment of the default values.
\<close>

definition ion_users :: "ionKind \<Rightarrow> 'm mechanism list \<Rightarrow> 'm mechanism set" where
  "ion_users kind ms = {m \<in> set ms. uses_ion m kind}"

definition bind_ions :: "ionKind list \<Rightarrow> 'm mechanism \<Rightarrow> 'm mechanism" where
  "bind_ions kinds m = fold (\<lambda>kind m. if uses_ion m kind then set_ion kind kind m else m) kinds m"

definition ion_entry :: "ionKind \<Rightarrow> 'm mechanism list \<Rightarrow> ion option" where
  "ion_entry kind ms =
     (if ion_users kind ms = {} then None else Some (new_ion (index_set kind ms)))"

definition with_defaults :: "real \<Rightarrow> real \<Rightarrow> real \<Rightarrow> ion option \<Rightarrow> ion" where
  "with_defaults e xi xo entry =
     (let i = (case entry of None \<Rightarrow> default_ion | Some i \<Rightarrow> i)
      in i\<lparr> reversal_potential := replicate (length (reversal_potential i)) e,
            internal_concentration := replicate (length (internal_concentration i)) xi,
            external_concentration := replicate (length (external_concentration i)) xo \<rparr>)"

section \<open>The passive cell: definitions for the uniform-voltage property\<close>

text \<open>
  \<open>passive_system dt s\<close> is the matrix that \<open>advance dt\<close> assembles when the cell
  has no mechanism and no stimulus: the current vector has been set to zero and
  \<open>setup_matrix\<close> has run. \<open>row_value m x i\<close> is row \<open>i\<close> of the tree matrix \<open>m\<close>
  applied to the vector \<open>x\<close> (diagonal, the entry towards the parent, and the
  entries towards the children), and \<open>solves m x\<close> states that \<open>x\<close> satisfies the
  system of \<open>m\<close>. \<open>advance_voltage\<close> is the voltage after one call of \<open>advance\<close>.
\<close>

definition passive_system :: "real \<Rightarrow> 'm fvm_cell \<Rightarrow> matrix" where
  "passive_system dt s =
     cell_matrix (setup_matrix dt (s\<lparr>cell_current := assign_const (cell_current s) 0\<rparr>))"

definition row_value :: "matrix \<Rightarrow> real list \<Rightarrow> nat \<Rightarrow> real" where
  "row_value m x i =
     mat_d m ! i * x ! i
       + (if 1 \<le> i then mat_l m ! i * x ! (mat_p m ! i) else 0)
       + sum_list (map (\<lambda>c. mat_u m ! c * x ! c)
           (filter (\<lambda>c. mat_p m ! c = i) [1..<length (mat_d m)]))"

definition solves :: "matrix \<Rightarrow> real list \<Rightarrow> bool" where
  "solves m x = list_all (\<lambda>i. row_value m x i = mat_rhs m ! i) [0..<length (mat_d m)]"

definition advance_voltage :: "real \<Rightarrow> 'm fvm_cell \<Rightarrow> error + real list" where
  "advance_voltage dt s = map_sum fst cell_voltage (advance dt s)"

text \<open>
  Invariants of the elimination on a system whose uniform vector \<open>v\<close> is a
  solution: \<open>row_sum m0 dg k i\<close> is the sum of the entries of row \<open>i\<close> once the
  children \<open>c \<ge> k\<close> of \<open>i\<close> have been eliminated; \<open>hines_inv\<close> holds during the
  backward sweep (every row sum is positive and the right-hand side is \<open>v\<close> times
  the row sum), \<open>forward_inv\<close> during the substitution (the first \<open>k\<close> entries of
  the right-hand side already hold \<open>v\<close>).
\<close>

definition row_sum :: "matrix \<Rightarrow> real list \<Rightarrow> nat \<Rightarrow> nat \<Rightarrow> real" where
  "row_sum m0 dg k i =
     dg ! i + (if 1 \<le> i then mat_l m0 ! i else 0)
       + child_sum (\<lambda>c. mat_u m0 ! c) (mat_p m0) i k"

definition hines_shape :: "nat \<Rightarrow> matrix \<Rightarrow> bool" where
  "hines_shape n m0 \<longleftrightarrow>
     length (mat_l m0) = n \<and> length (mat_u m0) = n \<and> length (mat_p m0) = n \<and>
     (\<forall>i. 1 \<le> i \<and> i < n \<longrightarrow> mat_p m0 ! i < i \<and> mat_l m0 ! i \<le> 0 \<and> mat_u m0 ! i \<le> 0)"

definition hines_inv :: "real \<Rightarrow> nat \<Rightarrow> matrix \<Rightarrow> nat \<Rightarrow> matrix \<Rightarrow> bool" where
  "hines_inv v n m0 k m \<longleftrightarrow>
     length (mat_d m) = n \<and> length (mat_rhs m) = n \<and>
     mat_l m = mat_l m0 \<and> mat_u m = mat_u m0 \<and> mat_p m = mat_p m0 \<and>
     (\<forall>i<n. 0 < row_sum m0 (mat_d m) k i \<and> mat_rhs m ! i = v * row_sum m0 (mat_d m) k i)"

definition forward_inv :: "real \<Rightarrow> nat \<Rightarrow> matrix \<Rightarrow> nat \<Rightarrow> matrix \<Rightarrow> bool" where
  "forward_inv v n m1 k m \<longleftrightarrow>
     length (mat_rhs m) = n \<and> mat_d m = mat_d m1 \<and> mat_l m = mat_l m1 \<and>
     mat_u m = mat_u m1 \<and> mat_p m = mat_p m1 \<and>
     (\<forall>i<n. mat_rhs m ! i = (if i < k then v else mat_rhs m1 ! i))"

text \<open>The two-compartment cable with the uniform voltage \<open>-65\<close>.\<close>

definition cable2_uniform :: "(real \<times> real) fvm_cell" where
  "cable2_uniform = cable2\<lparr>cell_voltage := [- 65, - 65]\<rparr>"

text \<open>
  A single soma with one mechanism, which stands at the synapse index: it records
  the parameters it is given by \<open>set_params\<close>, contributes no current, and knows
  the target \<open>0\<close> only. The state is given by the time, the state of the
  mechanism, the stimuli and the queue.
\<close>

definition recorder :: "real \<times> real \<Rightarrow> (real \<times> real) mechanism" where
  "recorder st =
     \<lparr> node_index = [0], uses_ion = (\<lambda>_. False), ion_ref = (\<lambda>_. None), areas_ref = True,
       mstate = st,
       set_params = (\<lambda>tm dt _. (tm, dt)),
       nrn_current = (\<lambda>_ _ sh. sh),
       nrn_state = (\<lambda>_ _ sh. sh),
       net_receive = (\<lambda>tgt w st'. if tgt = 0 then Inr st' else Inl OutOfRangeTarget) \<rparr>"

definition soma_cell ::
  "real \<Rightarrow> real \<times> real \<Rightarrow> (nat \<times> i_clamp) list \<Rightarrow> event list \<Rightarrow> (real \<times> real) fvm_cell" where
  "soma_cell tm st stims q =
     \<lparr> cell_t = tm,
       cell_matrix = \<lparr> mat_l = [0], mat_d = [1], mat_u = [0], mat_rhs = [- 65], mat_p = [0] \<rparr>,
       cv_areas = [1], face_alpha = [0], cv_capacitance = [1],
       cell_current = [0], cell_voltage = [- 65],
       synapse_index = 0, mechanisms = [recorder st], ions = Map.empty,
       stimulii = stims, events = q \<rparr>"

text \<open>A current clamp whose evaluation fails, and an event at 3.3 ms.\<close>

definition failing_clamp :: i_clamp where
  "failing_clamp = (\<lambda>_. Inl StimulusError)"

definition ev33 :: event where
  "ev33 = \<lparr> ev_time = 33 / 10, ev_target = 0, ev_weight = 1 \<rparr>"

text \<open>
  A cell of a soma and a cable of one compartment, with one density mechanism on
  the soma that uses sodium, and a catalogue whose synapse mechanism uses no ion;
  and the same cell with its two segments in the wrong order.
\<close>

definition example_collaborators :: "(real \<times> real, nat) collaborators" where
  "example_collaborators =
     \<lparr> get_mechanism_helper = (\<lambda>name idx. (recorder (0, 0))\<lparr>uses_ion := (\<lambda>kind. kind = ionKind_na)\<rparr>),
       make_synapse = (\<lambda>idx. recorder (0, 0)),
       find_compartment_index = (\<lambda>loc pidx sidx. loc),
       area_frustrum = (\<lambda>l r1 r2. pi * (r1 + r2) * sqrt (l\<^sup>2 + (r1 - r2)\<^sup>2)) \<rparr>"

definition example_soma :: segment where
  "example_soma =
     \<lparr> seg_body = Soma 1, seg_mechanisms = [''membrane'', ''hh''], seg_c_m = 1, seg_r_L = 1 \<rparr>"

definition example_cable :: segment where
  "example_cable =
     \<lparr> seg_body = Cable [\<lparr> comp_index = 0, comp_radius = (1, 1), comp_length = 1 \<rparr>],
       seg_mechanisms = [''membrane''], seg_c_m = 1, seg_r_L = 1 \<rparr>"

definition example_cell :: "nat cell" where
  "example_cell =
     \<lparr> segments = [example_soma, example_cable], num_compartments = 2,
       parent_index = [0, 0], segment_index = [0, 1, 2],
       cell_stimulii = [], cell_synapses = [1] \<rparr>"

definition reversed_cell :: "nat cell" where
  "reversed_cell = example_cell\<lparr>segments := [example_cable, example_soma]\<rparr>"

definition example_channel :: "(real \<times> real) mechanism" where
  "example_channel = (recorder (0, 0))\<lparr>node_index := [0], uses_ion := (\<lambda>kind. kind = ionKind_na)\<rparr>"

section \<open>Assembly of the matrix\<close>

lemma child_sum_Suc:
  "child_sum f par j (Suc k) =
     child_sum f par j k + (if 1 \<le> k \<and> par ! k = j then f k else 0)"
  by (cases "1 \<le> k") (auto simp: child_sum_def)

lemma child_sum_0 [simp]: "child_sum f par j 0 = 0" "child_sum f par j (Suc 0) = 0"
  by (simp_all add: child_sum_def)

lemma diag_step_inv:
  assumes "diag_inv dt alpha n m0 k m" "1 \<le> k" "k < n" "mat_p m0 ! k < n"
  shows "diag_inv dt alpha n m0 (Suc k) (diag_step dt alpha k m)"
  using assms
  unfolding diag_inv_def diag_step_def Let_def
  by (simp add: nth_list_update child_sum_Suc)

lemma diag_loop_inv:
  assumes "length (mat_d m0) = n" "length (mat_l m0) = n" "length (mat_u m0) = n"
    and "\<forall>j \<in> set (mat_p m0). j < n" "length (mat_p m0) = n"
  shows "k \<le> n \<Longrightarrow> diag_inv dt alpha n m0 k (fold (diag_step dt alpha) [1..<k] m0)"
proof (induction k)
  case 0
  then show ?case using assms by (simp add: diag_inv_def)
next
  case (Suc k)
  show ?case
  proof (cases "k = 0")
    case True
    then show ?thesis using assms by (simp add: diag_inv_def)
  next
    case False
    then have k: "1 \<le> k" "k < n" using Suc.prems by auto
    then have "mat_p m0 ! k < n" using assms by auto
    with Suc k show ?thesis
      by (simp add: diag_step_inv)
  qed
qed

lemma rhs_loop:
  "k \<le> length (mat_rhs m) \<Longrightarrow>
   fold (rhs_step factor s) [0..<k] m =
     m\<lparr>mat_rhs := map (\<lambda>i. if i < k
            then cv_areas s ! i * (cell_voltage s ! i - factor / cv_capacitance s ! i * cell_current s ! i)
            else mat_rhs m ! i) [0..<length (mat_rhs m)]\<rparr>"
proof (induction k)
  case 0
  then show ?case by (simp add: map_nth)
next
  case (Suc k)
  then have "k < length (mat_rhs m)" by simp
  with Suc show ?case
    apply (simp add: rhs_step_def)
    apply (rule arg_cong [where f = "\<lambda>x. m\<lparr>mat_rhs := x\<rparr>"])
    apply (rule nth_equalityI)
     apply (simp_all add: nth_list_update less_Suc_eq)
    done
qed

lemma setup_matrix_fields:
  "setup_matrix dt s = s\<lparr>cell_matrix := cell_matrix (setup_matrix dt s)\<rparr>"
  by (simp add: setup_matrix_def Let_def)

lemma setup_matrix_diag:
  assumes "well_sized n s"
  shows "diag_inv dt (face_alpha s) n
           ((cell_matrix s)\<lparr>mat_d := assign_all (mat_d (cell_matrix s)) (cv_areas s)\<rparr>) n
           (fold (diag_step dt (face_alpha s)) [1..<n]
             ((cell_matrix s)\<lparr>mat_d := assign_all (mat_d (cell_matrix s)) (cv_areas s)\<rparr>))"
  using assms by (intro diag_loop_inv) (simp_all add: well_sized_def assign_all_def)


lemma cable2_sized: "well_sized 2 cable2"
  by (simp add: well_sized_def cable2_def)


section \<open>The order of operations in \<open>advance\<close>\<close>

lemma current_loop:
  "mechanisms s = pre @ ms \<Longrightarrow>
   fold (mech_current dt) [length pre..<length pre + length ms] s =
     s\<lparr> mechanisms := pre @ fst (spec_currents (cell_t s) dt (cell_voltage s) ms (cell_current s, ions s)),
        cell_current := fst (snd (spec_currents (cell_t s) dt (cell_voltage s) ms (cell_current s, ions s))),
        ions := snd (snd (spec_currents (cell_t s) dt (cell_voltage s) ms (cell_current s, ions s))) \<rparr>"
proof (induction ms arbitrary: pre s)
  case Nil
  then show ?case by simp
next
  case (Cons m ms)
  let ?s = "mech_current dt (length pre) s"
  let ?r = "nrn_current m (node_index m) (cell_voltage s)
              (set_params m (cell_t s) dt (mstate m), cell_current s, ions s)"
  have step: "?s = s\<lparr> mechanisms := (pre @ [m\<lparr>mstate := fst ?r\<rparr>]) @ ms,
                       cell_current := fst (snd ?r), ions := snd (snd ?r) \<rparr>"
    using Cons.prems by (simp add: mech_current_def Let_def)
  have "fold (mech_current dt) [length pre..<length pre + length (m # ms)] s =
        fold (mech_current dt) [length (pre @ [m\<lparr>mstate := fst ?r\<rparr>])..<
             length (pre @ [m\<lparr>mstate := fst ?r\<rparr>]) + length ms] ?s"
    by (simp add: upt_conv_Cons del: upt_Suc)
  also have "\<dots> = ?s\<lparr> mechanisms := (pre @ [m\<lparr>mstate := fst ?r\<rparr>]) @
                fst (spec_currents (cell_t ?s) dt (cell_voltage ?s) ms (cell_current ?s, ions ?s)),
        cell_current := fst (snd (spec_currents (cell_t ?s) dt (cell_voltage ?s) ms (cell_current ?s, ions ?s))),
        ions := snd (snd (spec_currents (cell_t ?s) dt (cell_voltage ?s) ms (cell_current ?s, ions ?s))) \<rparr>"
    by (rule Cons.IH) (simp add: step)
  finally show ?case
    by (simp add: step Let_def)
qed

lemma state_loop:
  "mechanisms s = pre @ ms \<Longrightarrow>
   fold mech_state [length pre..<length pre + length ms] s =
     s\<lparr> mechanisms := pre @ fst (spec_states (cell_voltage s) ms (cell_current s, ions s)),
        cell_current := fst (snd (spec_states (cell_voltage s) ms (cell_current s, ions s))),
        ions := snd (snd (spec_states (cell_voltage s) ms (cell_current s, ions s))) \<rparr>"
proof (induction ms arbitrary: pre s)
  case Nil
  then show ?case by simp
next
  case (Cons m ms)
  let ?s = "mech_state (length pre) s"
  let ?r = "nrn_state m (node_index m) (cell_voltage s) (mstate m, cell_current s, ions s)"
  have step: "?s = s\<lparr> mechanisms := (pre @ [m\<lparr>mstate := fst ?r\<rparr>]) @ ms,
                       cell_current := fst (snd ?r), ions := snd (snd ?r) \<rparr>"
    using Cons.prems by (simp add: mech_state_def Let_def)
  have "fold mech_state [length pre..<length pre + length (m # ms)] s =
        fold mech_state [length (pre @ [m\<lparr>mstate := fst ?r\<rparr>])..<
             length (pre @ [m\<lparr>mstate := fst ?r\<rparr>]) + length ms] ?s"
    by (simp add: upt_conv_Cons del: upt_Suc)
  also have "\<dots> = ?s\<lparr> mechanisms := (pre @ [m\<lparr>mstate := fst ?r\<rparr>]) @
                fst (spec_states (cell_voltage ?s) ms (cell_current ?s, ions ?s)),
        cell_current := fst (snd (spec_states (cell_voltage ?s) ms (cell_current ?s, ions ?s))),
        ions := snd (snd (spec_states (cell_voltage ?s) ms (cell_current ?s, ions ?s))) \<rparr>"
    by (rule Cons.IH) (simp add: step)
  finally show ?case
    by (simp add: step Let_def)
qed

lemma stim_loop_spec:
  "stim_loop sts s =
     (case spec_stimuli (cell_t s) (cv_areas s) sts (cell_current s) of
        Inl x \<Rightarrow> Inl (fst x, s\<lparr>cell_current := snd x\<rparr>)
      | Inr cur \<Rightarrow> Inr (s\<lparr>cell_current := cur\<rparr>))"
proof (induction sts arbitrary: s)
  case Nil
  then show ?case by simp
next
  case (Cons st sts)
  then show ?case
    by (cases st) (simp add: Let_def split: sum.splits)
qed

lemma current_loop_all:
  "fold (mech_current dt) [0..<length (mechanisms s)] s =
     s\<lparr> mechanisms := fst (spec_currents (cell_t s) dt (cell_voltage s) (mechanisms s) (cell_current s, ions s)),
        cell_current := fst (snd (spec_currents (cell_t s) dt (cell_voltage s) (mechanisms s) (cell_current s, ions s))),
        ions := snd (snd (spec_currents (cell_t s) dt (cell_voltage s) (mechanisms s) (cell_current s, ions s))) \<rparr>"
  using current_loop [of s "[]" "mechanisms s" dt] by simp

lemma state_loop_all:
  "mechanisms s = ms \<Longrightarrow>
   fold mech_state [0..<length ms] s =
     s\<lparr> mechanisms := fst (spec_states (cell_voltage s) ms (cell_current s, ions s)),
        cell_current := fst (snd (spec_states (cell_voltage s) ms (cell_current s, ions s))),
        ions := snd (snd (spec_states (cell_voltage s) ms (cell_current s, ions s))) \<rparr>"
  using state_loop [of s "[]" ms] by simp

lemma setup_matrix_sel [simp]:
  "cell_t (setup_matrix dt s) = cell_t s"
  "cell_voltage (setup_matrix dt s) = cell_voltage s"
  "cell_current (setup_matrix dt s) = cell_current s"
  "mechanisms (setup_matrix dt s) = mechanisms s"
  "ions (setup_matrix dt s) = ions s"
  "events (setup_matrix dt s) = events s"
  "stimulii (setup_matrix dt s) = stimulii s"
  "cv_areas (setup_matrix dt s) = cv_areas s"
  "synapse_index (setup_matrix dt s) = synapse_index s"
  by (simp_all add: setup_matrix_def Let_def)

lemma setup_matrix_overwrite [simp]:
  "(setup_matrix dt s)\<lparr>cell_matrix := m\<rparr> = s\<lparr>cell_matrix := m\<rparr>"
  by (subst setup_matrix_fields) simp

lemma advance_spec_advance: "advance dt s = spec_advance dt s"
proof -
  let ?s1 = "s\<lparr>cell_current := assign_const (cell_current s) 0\<rparr>"
  let ?c = "spec_currents (cell_t s) dt (cell_voltage s) (mechanisms s)
              (replicate (length (cell_current s)) 0, ions s)"
  let ?s2 = "s\<lparr>mechanisms := fst ?c, cell_current := fst (snd ?c), ions := snd (snd ?c)\<rparr>"
  have zero: "assign_const (cell_current s) 0 = replicate (length (cell_current s)) 0"
    by (simp add: assign_const_def map_replicate_const)
  have s2: "fold (mech_current dt) [0..<length (mechanisms ?s1)] ?s1 = ?s2"
    using current_loop_all [of dt ?s1] by (simp add: zero)
  show ?thesis
  proof (cases "spec_stimuli (cell_t s) (cv_areas s) (stimulii s) (fst (snd ?c))")
    case (Inl x)
    then show ?thesis
      unfolding advance_def spec_advance_def Let_def s2
      by (simp add: stim_loop_spec)
  next
    case (Inr cur)
    let ?s3 = "?s2\<lparr>cell_current := cur\<rparr>"
    let ?s4 = "setup_matrix dt ?s3"
    have st: "stim_loop (stimulii ?s2) ?s2 = Inr ?s3"
      using Inr by (simp add: stim_loop_spec)
    show ?thesis
    proof (cases "solve (cell_matrix ?s4)")
      case (Inl x)
      then show ?thesis
        unfolding advance_def spec_advance_def Let_def s2 st
        using Inr by simp
    next
      case m: (Inr m)
      show ?thesis
        unfolding advance_def spec_advance_def Let_def s2 st
        using Inr m by (simp add: state_loop_all)
    qed
  qed
qed


section \<open>The event queue\<close>

lemma earliest_in: "earliest x xs \<in> set (x # xs)"
  by (induction xs arbitrary: x) auto

lemma earliest_time: "y \<in> set (x # xs) \<Longrightarrow> ev_time (earliest x xs) \<le> ev_time y"
proof (induction xs arbitrary: x y)
  case Nil
  then show ?case by simp
next
  case (Cons a xs)
  have le: "ev_time (if event_less a x then a else x) \<le> ev_time x"
           "ev_time (if event_less a x then a else x) \<le> ev_time a"
    by (auto simp: event_less_def)
  from Cons.prems consider "y = x" | "y = a" | "y \<in> set xs" by auto
  then show ?case
  proof cases
    case 1
    have "ev_time (earliest (if event_less a x then a else x) xs)
            \<le> ev_time (if event_less a x then a else x)"
      by (rule Cons.IH) simp
    with le 1 show ?thesis by simp
  next
    case 2
    have "ev_time (earliest (if event_less a x then a else x) xs)
            \<le> ev_time (if event_less a x then a else x)"
      by (rule Cons.IH) simp
    with le 2 show ?thesis by simp
  next
    case 3
    then have "ev_time (earliest (if event_less a x then a else x) xs) \<le> ev_time y"
      by (intro Cons.IH) simp
    then show ?thesis by simp
  qed
qed

lemma pop_if_before_Some:
  assumes "pop_if_before tm q = (Some e, q')"
  shows "e \<in> set q \<and> q' = remove1 e q \<and> ev_time e < tm \<and> (\<forall>y \<in> set q. ev_time e \<le> ev_time y)"
proof (cases q)
  case Nil
  with assms show ?thesis by (simp add: pop_if_before_def)
next
  case (Cons x xs)
  with assms have e: "e = earliest x xs" "ev_time e < tm" "q' = remove1 e q"
    by (auto simp: pop_if_before_def Let_def split: if_splits)
  then show ?thesis
    using earliest_in [of x xs] earliest_time [of _ x xs] Cons by auto
qed

lemma pop_if_before_None:
  assumes "pop_if_before tm q = (None, q')"
  shows "q' = q \<and> (\<forall>y \<in> set q. tm \<le> ev_time y)"
proof (cases q)
  case Nil
  with assms show ?thesis by (simp add: pop_if_before_def)
next
  case (Cons x xs)
  with assms have e: "\<not> ev_time (earliest x xs) < tm" "q' = q"
    by (auto simp: pop_if_before_def Let_def split: if_splits)
  then show ?thesis
    using earliest_time [of _ x xs] Cons by fastforce
qed

lemma next_substep_cases:
  obtains (event) e where "next_substep tfinal dt tm q = (ev_time e, Some e, remove1 e q)"
      "e \<in> set q" "ev_time e < min tfinal (tm + dt)" "\<forall>y \<in> set q. ev_time e \<le> ev_time y"
  | (none) "next_substep tfinal dt tm q = (min tfinal (tm + dt), None, q)"
      "\<forall>y \<in> set q. min tfinal (tm + dt) \<le> ev_time y"
proof (cases "pop_if_before (min tfinal (tm + dt)) q")
  case (Pair a q')
  show ?thesis
  proof (cases a)
    case None
    with Pair pop_if_before_None [of "min tfinal (tm + dt)" q q'] none
    show ?thesis by (simp add: next_substep_def)
  next
    case (Some e)
    with Pair pop_if_before_Some [of "min tfinal (tm + dt)" q e q'] event [of e]
    show ?thesis by (simp add: next_substep_def)
  qed
qed

lemma next_substep_le: "fst (next_substep tfinal dt tm q) \<le> tfinal"
  by (cases rule: next_substep_cases [where tfinal = tfinal and dt = dt and tm = tm and q = q])
     auto

section \<open>The loop of \<open>advance_to\<close>\<close>

lemma spec_advance_Inr:
  assumes "spec_advance dt s = Inr s'"
  shows "cell_t s' = cell_t s + dt \<and> events s' = events s \<and>
         synapse_index s' = synapse_index s \<and> stimulii s' = stimulii s \<and>
         cv_areas s' = cv_areas s"
  using assms by (auto simp: spec_advance_def Let_def split: sum.splits)

lemma spec_advance_Inl:
  assumes "spec_advance dt s = Inl (e, sf)"
  shows "cell_t sf = cell_t s \<and> cell_voltage sf = cell_voltage s \<and> events sf = events s"
  using assms by (auto simp: spec_advance_def Let_def split: sum.splits)

lemmas advance_Inr = spec_advance_Inr [folded advance_spec_advance]

lemmas advance_Inl = spec_advance_Inl [folded advance_spec_advance]

lemma run_calls_append:
  "run_calls (a @ b) s = (case run_calls a s of Inl x \<Rightarrow> Inl x | Inr s' \<Rightarrow> run_calls b s')"
  by (induction a arbitrary: s) (auto split: sum.splits)

lemma advance_to_body_unfold:
  "advance_to_body tfinal dt tr s =
     (let ns = next_substep tfinal dt (cell_t s) (events s);
          a = Advance (cell_t s) (fst ns - cell_t s) (snd (snd ns))
      in case advance (fst ns - cell_t s) (s\<lparr>events := snd (snd ns)\<rparr>) of
           Inl x \<Rightarrow> (tr @ [a], Inl x)
         | Inr s1 \<Rightarrow>
             (case fst (snd ns) of
                None \<Rightarrow> (tr @ [a], Inr (s1\<lparr>cell_t := fst ns\<rparr>))
              | Some e \<Rightarrow> (tr @ [a, NetReceive (fst ns) e], dispatch e (s1\<lparr>cell_t := fst ns\<rparr>))))"
proof (cases "fst (pop_if_before (min tfinal (cell_t s + dt)) (events s))")
  case None
  then show ?thesis
    by (simp add: advance_to_body_def next_substep_def Let_def split: sum.split)
next
  case (Some e)
  then show ?thesis
    by (simp add: advance_to_body_def next_substep_def dispatch_def Let_def split: sum.split)
qed

lemma dispatch_Inr:
  "dispatch e s = Inr s' \<Longrightarrow> cell_t s' = cell_t s \<and> events s' = events s"
  by (auto simp: dispatch_def Let_def split: sum.splits)

lemma advance_to_body_calls:
  assumes "advance_to_body tfinal dt tr s = (tr', r)"
  shows "\<exists>calls rest. tr' = tr @ calls \<and>
           substep_calls (cell_t s) (next_substep tfinal dt (cell_t s) (events s)) = calls @ rest \<and>
           run_calls calls s = r \<and>
           (\<forall>s'. r = Inr s' \<longrightarrow> rest = [] \<and>
              cell_t s' = fst (next_substep tfinal dt (cell_t s) (events s)) \<and>
              events s' = snd (snd (next_substep tfinal dt (cell_t s) (events s))))"
proof -
  define ns where "ns = next_substep tfinal dt (cell_t s) (events s)"
  define a where "a = Advance (cell_t s) (fst ns - cell_t s) (snd (snd ns))"
  note body = advance_to_body_unfold [of tfinal dt tr s, folded ns_def, unfolded Let_def, folded a_def]
  show ?thesis
    unfolding ns_def [symmetric]
  proof (cases "advance (fst ns - cell_t s) (s\<lparr>events := snd (snd ns)\<rparr>)")
    case (Inl x)
    then have "tr' = tr @ [a]" "r = Inl x"
      using assms body by simp_all
    moreover have "run_calls [a] s = Inl x"
      using Inl by (simp add: a_def)
    moreover have "\<exists>rest. substep_calls (cell_t s) ns = [a] @ rest"
      by (simp add: substep_calls_def a_def)
    ultimately show "\<exists>calls rest. tr' = tr @ calls \<and> substep_calls (cell_t s) ns = calls @ rest \<and>
           run_calls calls s = r \<and>
           (\<forall>s'. r = Inr s' \<longrightarrow> rest = [] \<and> cell_t s' = fst ns \<and> events s' = snd (snd ns))"
      by blast
  next
    case (Inr s1)
    from advance_Inr [OF Inr]
    have s1: "events s1 = snd (snd ns)" by simp
    show "\<exists>calls rest. tr' = tr @ calls \<and> substep_calls (cell_t s) ns = calls @ rest \<and>
           run_calls calls s = r \<and>
           (\<forall>s'. r = Inr s' \<longrightarrow> rest = [] \<and> cell_t s' = fst ns \<and> events s' = snd (snd ns))"
    proof (cases "fst (snd ns)")
      case None
      then have "tr' = tr @ [a]" "r = Inr (s1\<lparr>cell_t := fst ns\<rparr>)"
        using assms body Inr by simp_all
      moreover have "run_calls [a] s = Inr (s1\<lparr>cell_t := fst ns\<rparr>)"
        using Inr by (simp add: a_def)
      moreover have "substep_calls (cell_t s) ns = [a] @ []"
        using None by (simp add: substep_calls_def a_def)
      moreover have "cell_t (s1\<lparr>cell_t := fst ns\<rparr>) = fst ns"
        "events (s1\<lparr>cell_t := fst ns\<rparr>) = snd (snd ns)"
        using s1 by simp_all
      ultimately show ?thesis
        by blast
    next
      case (Some e)
      let ?n = "NetReceive (fst ns) e"
      have "tr' = tr @ [a, ?n]" "r = dispatch e (s1\<lparr>cell_t := fst ns\<rparr>)"
        using assms body Inr Some by simp_all
      moreover have "run_calls [a, ?n] s = dispatch e (s1\<lparr>cell_t := fst ns\<rparr>)"
        using Inr by (simp add: a_def split: sum.split)
      moreover have "substep_calls (cell_t s) ns = [a, ?n] @ []"
        using Some by (simp add: substep_calls_def a_def)
      moreover have "\<forall>s'. dispatch e (s1\<lparr>cell_t := fst ns\<rparr>) = Inr s' \<longrightarrow>
          cell_t s' = fst ns \<and> events s' = snd (snd ns)"
        using s1 by (auto dest!: dispatch_Inr)
      ultimately show ?thesis
        by blast
    qed
  qed
qed

lemma advance_to_loop_schedule:
  "0 < dt \<Longrightarrow> cell_t s = tm \<Longrightarrow> events s = q \<Longrightarrow>
   \<exists>calls r rest. advance_to_loop tfinal dt tr s = Some (tr @ calls, r) \<and>
      spec_schedule tfinal dt tm q = calls @ rest \<and>
      run_calls calls s = r \<and>
      (\<forall>s'. r = Inr s' \<longrightarrow> rest = [] \<and> cell_t s' = tfinal)"
proof (induction tfinal dt tm q arbitrary: s tr rule: spec_schedule.induct)
  case (1 tfinal dt tm q)
  let ?ns = "next_substep tfinal dt tm q"
  obtain tr1 r1 where body: "advance_to_body tfinal dt tr s = (tr1, r1)"
    by (cases "advance_to_body tfinal dt tr s")
  have sched: "spec_schedule tfinal dt tm q =
      substep_calls tm ?ns @
        (if fst ?ns < tfinal then spec_schedule tfinal dt (fst ?ns) (snd (snd ?ns)) else [])"
    using "1.prems" by (subst spec_schedule.simps) (simp add: Let_def)
  obtain calls rest where c: "tr1 = tr @ calls" "substep_calls tm ?ns = calls @ rest"
      "run_calls calls s = r1"
      "\<forall>s'. r1 = Inr s' \<longrightarrow> rest = [] \<and> cell_t s' = fst ?ns \<and> events s' = snd (snd ?ns)"
    using advance_to_body_calls [OF body] "1.prems" by auto
  show ?case
  proof (cases r1)
    case (Inl x)
    then have "advance_to_loop tfinal dt tr s = Some (tr @ calls, Inl x)"
      using body c by (subst advance_to_loop.simps) simp
    then show ?thesis
      using c Inl by (auto simp: sched)
  next
    case (Inr s1)
    then have s1: "rest = []" "cell_t s1 = fst ?ns" "events s1 = snd (snd ?ns)"
      using c by auto
    show ?thesis
    proof (cases "fst ?ns < tfinal")
      case True
      then have loop: "advance_to_loop tfinal dt tr s = advance_to_loop tfinal dt (tr @ calls) s1"
        using body Inr s1 c by (subst advance_to_loop.simps) simp
      have "\<exists>calls' r rest. advance_to_loop tfinal dt (tr @ calls) s1 = Some ((tr @ calls) @ calls', r) \<and>
          spec_schedule tfinal dt (fst ?ns) (snd (snd ?ns)) = calls' @ rest \<and>
          run_calls calls' s1 = r \<and>
          (\<forall>s'. r = Inr s' \<longrightarrow> rest = [] \<and> cell_t s' = tfinal)"
        using "1.prems" True s1 by (intro "1.IH") simp_all
      then obtain calls' r rest' where
        ih: "advance_to_loop tfinal dt (tr @ calls) s1 = Some ((tr @ calls) @ calls', r)"
          "spec_schedule tfinal dt (fst ?ns) (snd (snd ?ns)) = calls' @ rest'"
          "run_calls calls' s1 = r"
          "\<forall>s'. r = Inr s' \<longrightarrow> rest' = [] \<and> cell_t s' = tfinal"
        by blast
      have "run_calls (calls @ calls') s = r"
        using c Inr ih by (simp add: run_calls_append)
      moreover have "spec_schedule tfinal dt tm q = (calls @ calls') @ rest'"
        using True c s1 ih by (simp add: sched)
      ultimately show ?thesis
        using ih loop by (metis append.assoc)
    next
      case False
      then have "advance_to_loop tfinal dt tr s = Some (tr @ calls, Inr s1)"
        using body Inr s1 c by (subst advance_to_loop.simps) simp
      moreover have "cell_t s1 = tfinal"
        using False s1 next_substep_le [of tfinal dt tm q] by simp
      ultimately show ?thesis
        using False c s1 Inr by (simp add: sched)
    qed
  qed
qed

lemma spec_schedule_head:
  "spec_schedule tfinal dt tm q = [] \<or>
   (\<exists>tm' h q' rest. spec_schedule tfinal dt tm q = Advance tm' h q' # rest)"
  by (subst (1 2) spec_schedule.simps) (simp add: Let_def substep_calls_def)

lemma boundaries_ok_Advance:
  "cs = [] \<or> (\<exists>tm' h' q' rest. cs = Advance tm' h' q' # rest) \<Longrightarrow>
   boundaries_ok (Advance tm h q # cs) = boundaries_ok cs"
  by auto

lemma spec_schedule_boundaries: "boundaries_ok (spec_schedule tfinal dt tm q)"
proof (induction tfinal dt tm q rule: spec_schedule.induct)
  case (1 tfinal dt tm q)
  let ?ns = "next_substep tfinal dt tm q"
  let ?rest = "if fst ?ns < tfinal then spec_schedule tfinal dt (fst ?ns) (snd (snd ?ns)) else []"
  show ?case
  proof (cases "dt \<le> 0")
    case True
    then show ?thesis by (subst spec_schedule.simps) simp
  next
    case False
    then have sched: "spec_schedule tfinal dt tm q = substep_calls tm ?ns @ ?rest"
      by (subst spec_schedule.simps) (simp add: Let_def)
    have rest: "boundaries_ok ?rest"
      using "1.IH" False by simp
    have head: "?rest = [] \<or> (\<exists>tm' h' q' r. ?rest = Advance tm' h' q' # r)"
      using spec_schedule_head [of tfinal dt "fst ?ns" "snd (snd ?ns)"] by auto
    show ?thesis
    proof (cases rule: next_substep_cases [where tfinal = tfinal and dt = dt and tm = tm and q = q])
      case (event e)
      then show ?thesis
        using rest by (simp add: sched substep_calls_def)
    next
      case none
      then show ?thesis
        using rest boundaries_ok_Advance [OF head]
        by (simp add: sched substep_calls_def)
    qed
  qed
qed

lemma spec_schedule_no_event_inside: "list_all no_event_inside (spec_schedule tfinal dt tm q)"
proof (induction tfinal dt tm q rule: spec_schedule.induct)
  case (1 tfinal dt tm q)
  let ?ns = "next_substep tfinal dt tm q"
  let ?rest = "if fst ?ns < tfinal then spec_schedule tfinal dt (fst ?ns) (snd (snd ?ns)) else []"
  show ?case
  proof (cases "dt \<le> 0")
    case True
    then show ?thesis by (subst spec_schedule.simps) simp
  next
    case False
    then have sched: "spec_schedule tfinal dt tm q = substep_calls tm ?ns @ ?rest"
      by (subst spec_schedule.simps) (simp add: Let_def)
    have rest: "list_all no_event_inside ?rest"
      using "1.IH" False by simp
    show ?thesis
    proof (cases rule: next_substep_cases [where tfinal = tfinal and dt = dt and tm = tm and q = q])
      case (event e)
      then have "\<forall>y \<in> set (remove1 e q). ev_time e \<le> ev_time y"
        by (meson notin_set_remove1)
      with event show ?thesis
        using rest by (simp add: sched substep_calls_def list_all_iff) force
    next
      case none
      then show ?thesis
        using rest by (simp add: sched substep_calls_def list_all_iff) force
    qed
  qed
qed

lemma run_calls_snoc:
  "run_calls cs s = Inr s0 \<Longrightarrow> run_calls (cs @ [c]) s = run_call c s0"
  by (simp add: run_calls_append split: sum.split)

lemma advance_to_body_nonempty:
  assumes "advance_to_body tfinal dt tr s = (tr', r)"
  shows "\<exists>calls. tr' = tr @ calls \<and> calls \<noteq> [] \<and> run_calls calls s = r \<and>
           (\<exists>s0. run_calls (butlast calls) s = Inr s0)"
proof -
  define ns where "ns = next_substep tfinal dt (cell_t s) (events s)"
  define a where "a = Advance (cell_t s) (fst ns - cell_t s) (snd (snd ns))"
  note body = advance_to_body_unfold [of tfinal dt tr s, folded ns_def, unfolded Let_def, folded a_def]
  show ?thesis
  proof (cases "advance (fst ns - cell_t s) (s\<lparr>events := snd (snd ns)\<rparr>)")
    case (Inl x)
    then have "tr' = tr @ [a]" "r = Inl x"
      using assms body by simp_all
    moreover have "run_calls [a] s = Inl x"
      using Inl by (simp add: a_def)
    moreover have "run_calls (butlast [a]) s = Inr s"
      by simp
    ultimately show ?thesis
      by blast
  next
    case (Inr s1)
    have a: "run_calls [a] s = Inr (s1\<lparr>cell_t := fst ns\<rparr>)"
      using Inr by (simp add: a_def)
    show ?thesis
    proof (cases "fst (snd ns)")
      case None
      then have "tr' = tr @ [a]" "r = Inr (s1\<lparr>cell_t := fst ns\<rparr>)"
        using assms body Inr by simp_all
      moreover have "run_calls (butlast [a]) s = Inr s"
        by simp
      ultimately show ?thesis
        using a by blast
    next
      case (Some e)
      let ?n = "NetReceive (fst ns) e"
      have "tr' = tr @ [a, ?n]" "r = dispatch e (s1\<lparr>cell_t := fst ns\<rparr>)"
        using assms body Inr Some by simp_all
      moreover have "run_calls [a, ?n] s = dispatch e (s1\<lparr>cell_t := fst ns\<rparr>)"
        using Inr by (simp add: a_def split: sum.split)
      moreover have "run_calls (butlast [a, ?n]) s = Inr (s1\<lparr>cell_t := fst ns\<rparr>)"
        using a by simp
      moreover have "[a, ?n] \<noteq> []"
        by simp
      ultimately show ?thesis
        by blast
    qed
  qed
qed

lemma advance_to_loop_run:
  assumes "advance_to_loop tfinal dt tr s = Some y"
  shows "\<exists>calls. fst y = tr @ calls \<and> calls \<noteq> [] \<and> run_calls calls s = snd y \<and>
           (\<exists>s0. run_calls (butlast calls) s = Inr s0)"
proof (rule advance_to_loop.raw_induct
    [where P = "\<lambda>tfinal dt tr s y. \<exists>calls. fst y = tr @ calls \<and> calls \<noteq> [] \<and>
                  run_calls calls s = snd y \<and> (\<exists>s0. run_calls (butlast calls) s = Inr s0)",
     OF _ assms])
  fix loop :: "real \<Rightarrow> real \<Rightarrow> call list \<Rightarrow> 'a fvm_cell \<Rightarrow> (call list \<times> 'a outcome) option"
  fix tfinal dt :: real and tr :: "call list" and s :: "'a fvm_cell" and y
  assume IH: "\<And>tfinal dt tr s y. loop tfinal dt tr s = Some y \<Longrightarrow>
      \<exists>calls. fst y = tr @ calls \<and> calls \<noteq> [] \<and> run_calls calls s = snd y \<and>
        (\<exists>s0. run_calls (butlast calls) s = Inr s0)"
  assume eq: "(let r = advance_to_body tfinal dt tr s
      in case snd r of Inl x \<Rightarrow> Some r
         | Inr s' \<Rightarrow> if cell_t s' < tfinal then loop tfinal dt (fst r) s' else Some r) = Some y"
  obtain tr1 r1 where body: "advance_to_body tfinal dt tr s = (tr1, r1)"
    by (cases "advance_to_body tfinal dt tr s")
  obtain calls s0 where c: "tr1 = tr @ calls" "calls \<noteq> []" "run_calls calls s = r1"
      "run_calls (butlast calls) s = Inr s0"
    using advance_to_body_nonempty [OF body] by blast
  show "\<exists>calls. fst y = tr @ calls \<and> calls \<noteq> [] \<and> run_calls calls s = snd y \<and>
        (\<exists>s0. run_calls (butlast calls) s = Inr s0)"
  proof (cases r1)
    case (Inl x)
    then have "y = (tr1, r1)"
      using eq body by (simp add: Let_def)
    then show ?thesis
      using c by auto
  next
    case (Inr s1)
    show ?thesis
    proof (cases "cell_t s1 < tfinal")
      case True
      then have "loop tfinal dt tr1 s1 = Some y"
        using eq body Inr by (simp add: Let_def)
      from IH [OF this] obtain calls' s0' where
        c': "fst y = tr1 @ calls'" "calls' \<noteq> []" "run_calls calls' s1 = snd y"
            "run_calls (butlast calls') s1 = Inr s0'"
        by blast
      have "run_calls (calls @ calls') s = snd y"
        using c c' Inr by (simp add: run_calls_append)
      moreover have "run_calls (butlast (calls @ calls')) s = Inr s0'"
        using c c' Inr by (simp add: butlast_append run_calls_append)
      moreover have "fst y = tr @ calls @ calls'"
        using c c' by simp
      moreover have "calls @ calls' \<noteq> []"
        using c' by simp
      ultimately show ?thesis
        by blast
    next
      case False
      then have "y = (tr1, r1)"
        using eq body Inr by (simp add: Let_def)
      then show ?thesis
        using c by auto
    qed
  qed
qed

lemma dispatch_Inl: "dispatch e s = Inl (err, sf) \<Longrightarrow> sf = s"
  by (auto simp: dispatch_def Let_def split: sum.splits)

lemma run_call_Inl:
  assumes "run_call c s0 = Inl (err, sf)"
  shows "case c of Advance tm h q \<Rightarrow> cell_voltage sf = cell_voltage s0 \<and> cell_t sf = cell_t s0
                 | NetReceive tm e \<Rightarrow> sf = s0"
proof (cases c)
  case (Advance tm h q)
  then have "advance h (s0\<lparr>events := q\<rparr>) = Inl (err, sf)"
    using assms by (simp split: sum.splits)
  from advance_Inl [OF this] show ?thesis
    using Advance by simp
next
  case (NetReceive tm e)
  then show ?thesis
    using assms dispatch_Inl [of e s0 err sf] by simp
qed

section \<open>The example soma\<close>

lemma soma_cell_sel [simp]:
  "cell_t (soma_cell tm st stims q) = tm"
  "events (soma_cell tm st stims q) = q"
  "(soma_cell tm st stims q)\<lparr>events := q'\<rparr> = soma_cell tm st stims q'"
  "(soma_cell tm st stims q)\<lparr>cell_t := tm'\<rparr> = soma_cell tm' st stims q"
  by (simp_all add: soma_cell_def)

lemma soma_cell_advance [simp]:
  "advance h (soma_cell tm st [] q) = Inr (soma_cell (tm + h) (tm, h) [] q)"
  apply (simp add: advance_spec_advance spec_advance_def Let_def)
  apply (simp add: soma_cell_def recorder_def setup_matrix_def assign_all_def diag_step_def rhs_step_def solve_def)
  done

lemma soma_cell_dispatch [simp]:
  "dispatch e (soma_cell tm st stims q) =
     (if ev_target e = 0 then Inr (soma_cell tm st stims q)
      else Inl (OutOfRangeTarget, soma_cell tm st stims q))"
  by (simp add: dispatch_def soma_cell_def recorder_def)

lemma pop_ev33 [simp]:
  "pop_if_before tm [ev33] = (if 33 / 10 < tm then (Some ev33, []) else (None, [ev33]))"
  "pop_if_before tm [] = (None, [])"
  by (simp_all add: pop_if_before_def ev33_def)

lemma spec_schedule_more:
  "0 < dt \<Longrightarrow> fst (next_substep tfinal dt tm q) < tfinal \<Longrightarrow>
   spec_schedule tfinal dt tm q =
     substep_calls tm (next_substep tfinal dt tm q) @
       spec_schedule tfinal dt (fst (next_substep tfinal dt tm q))
         (snd (snd (next_substep tfinal dt tm q)))"
  by (subst spec_schedule.simps) (simp add: Let_def)

lemma spec_schedule_last:
  "0 < dt \<Longrightarrow> \<not> fst (next_substep tfinal dt tm q) < tfinal \<Longrightarrow>
   spec_schedule tfinal dt tm q = substep_calls tm (next_substep tfinal dt tm q)"
  by (subst spec_schedule.simps) (simp add: Let_def)

lemma ev33_sel [simp]: "ev_time ev33 = 33 / 10" "ev_target ev33 = 0"
  by (simp_all add: ev33_def)

lemma deliveries_mem:
  "NetReceive tm e \<in> set cs \<Longrightarrow> (tm, e) \<in> set (deliveries cs)"
  by (induction cs) (auto simp: deliveries_def)

lemma step_sizes_append [simp]: "step_sizes (a @ b) = step_sizes a @ step_sizes b"
  by (simp add: step_sizes_def)

lemma deliveries_append [simp]: "deliveries (a @ b) = deliveries a @ deliveries b"
  by (simp add: deliveries_def)

lemma run_call_soma_Advance:
  "run_call (Advance tm0 h q0) (soma_cell tm st [] q) = Inr (soma_cell (tm0 + h) (tm, h) [] q0)"
  by simp

lemma run_call_soma_NetReceive:
  "ev_target e = 0 \<Longrightarrow>
   run_call (NetReceive tm0 e) (soma_cell tm st [] q) = Inr (soma_cell tm st [] q)"
  by simp

lemma soma_cell_runs:
  "\<forall>tm' e. NetReceive tm' e \<in> set cs \<longrightarrow> ev_target e = 0 \<Longrightarrow>
   \<exists>tm' st' q'. run_calls cs (soma_cell tm st [] q) = Inr (soma_cell tm' st' [] q')"
proof (induction cs arbitrary: tm st q)
  case Nil
  have "run_calls [] (soma_cell tm st [] q) = Inr (soma_cell tm st [] q)" by simp
  then show ?case by blast
next
  case (Cons c cs)
  from Cons.prems have rest: "\<forall>tm' e. NetReceive tm' e \<in> set cs \<longrightarrow> ev_target e = 0"
    by (meson list.set_intros(2))
  show ?case
  proof (cases c)
    case (Advance tm0 h q0)
    have "run_calls (c # cs) (soma_cell tm st [] q) =
          run_calls cs (soma_cell (tm0 + h) (tm, h) [] q0)"
      unfolding Advance by (simp only: run_calls.simps run_call_soma_Advance sum.case)
    then show ?thesis
      using Cons.IH [OF rest, of "tm0 + h" "(tm, h)" q0] by (simp only:)
  next
    case (NetReceive tm0 e)
    then have "ev_target e = 0"
      using Cons.prems [rule_format, of tm0 e] by simp
    then have "run_calls (c # cs) (soma_cell tm st [] q) = run_calls cs (soma_cell tm st [] q)"
      unfolding NetReceive by (simp only: run_calls.simps run_call_soma_NetReceive sum.case)
    then show ?thesis
      using Cons.IH [OF rest, of tm st q] by (simp only:)
  qed
qed

lemma soma_cell_failing_advance [simp]:
  "advance h (soma_cell tm st [(0, failing_clamp)] q) =
     Inl (StimulusError, soma_cell tm (tm, h) [(0, failing_clamp)] q)"
  apply (simp add: advance_spec_advance spec_advance_def Let_def)
  apply (simp add: soma_cell_def recorder_def failing_clamp_def)
  done

lemma fail1:
  "advance_to 1 1 (soma_cell 0 (7, 7) [(0, failing_clamp)] []) =
     Some ([Advance 0 1 []], Inl (StimulusError, soma_cell 0 (0, 1) [(0, failing_clamp)] []))"
  apply (simp add: advance_to_def)
  apply (subst advance_to_loop.simps)
  apply (simp add: advance_to_body_unfold next_substep_def Let_def)
  done

lemma sched_gen:
  assumes "ev_time e = 33 / 10"
  shows "step_sizes (spec_schedule 10 (1/2) 0 [e]) =
     [1/2, 1/2, 1/2, 1/2, 1/2, 1/2, 3/10,
      1/2, 1/2, 1/2, 1/2, 1/2, 1/2, 1/2, 1/2, 1/2, 1/2, 1/2, 1/2, 1/2, 1/5] \<and>
   deliveries (spec_schedule 10 (1/2) 0 [e]) = [(33/10, e)]"
  using assms
  by (simp add: spec_schedule_more spec_schedule_last next_substep_def substep_calls_def Let_def
        step_sizes_def deliveries_def pop_if_before_def)

lemma steps_3_3:
  assumes "cell_t s = 0" and "events s = [e]" and "ev_time e = 33 / 10"
  shows "\<exists>tr r rest. advance_to 10 (1 / 2) s = Some (tr, r) \<and> run_calls tr s = r \<and>
           [1/2, 1/2, 1/2, 1/2, 1/2, 1/2, 3/10,
            1/2, 1/2, 1/2, 1/2, 1/2, 1/2, 1/2, 1/2, 1/2, 1/2, 1/2, 1/2, 1/2, 1/5]
             = step_sizes tr @ step_sizes rest \<and>
           [(33 / 10, e)] = deliveries tr @ deliveries rest \<and>
           (\<forall>s'. r = Inr s' \<longrightarrow> rest = [])"
proof -
  have "advance_to 10 (1 / 2) s = advance_to_loop 10 (1 / 2) [] s"
    using assms by (simp add: advance_to_def)
  moreover obtain calls r rest where c:
    "advance_to_loop 10 (1 / 2) [] s = Some ([] @ calls, r)"
    "spec_schedule 10 (1 / 2) 0 [e] = calls @ rest"
    "run_calls calls s = r"
    "\<forall>s'. r = Inr s' \<longrightarrow> rest = [] \<and> cell_t s' = 10"
    using advance_to_loop_schedule [where dt = "1 / 2" and s = s and tm = 0 and q = "[e]" and tfinal = 10 and tr = "[]"] assms by auto
  moreover have "step_sizes (calls @ rest) = [1/2, 1/2, 1/2, 1/2, 1/2, 1/2, 3/10,
            1/2, 1/2, 1/2, 1/2, 1/2, 1/2, 1/2, 1/2, 1/2, 1/2, 1/2, 1/2, 1/2, 1/5]"
    "deliveries (calls @ rest) = [(33 / 10, e)]"
    using sched_gen [OF assms(3)] c(2) by simp_all
  ultimately show ?thesis
    by (simp only: step_sizes_append deliveries_append append_Nil) metis
qed

lemma soma33_run:
  "\<exists>tr s'. advance_to 10 (1 / 2) (soma_cell 0 (0, 0) [] [ev33]) = Some (tr, Inr s') \<and>
     step_sizes tr = [1/2, 1/2, 1/2, 1/2, 1/2, 1/2, 3/10,
            1/2, 1/2, 1/2, 1/2, 1/2, 1/2, 1/2, 1/2, 1/2, 1/2, 1/2, 1/2, 1/2, 1/5] \<and>
     deliveries tr = [(33 / 10, ev33)]"
proof -
  let ?s = "soma_cell 0 (0, 0) [] [ev33]"
  from steps_3_3 [of ?s ev33] obtain tr r rest where
    t: "advance_to 10 (1 / 2) ?s = Some (tr, r)" "run_calls tr ?s = r"
       "[1/2, 1/2, 1/2, 1/2, 1/2, 1/2, 3/10,
            1/2, 1/2, 1/2, 1/2, 1/2, 1/2, 1/2, 1/2, 1/2, 1/2, 1/2, 1/2, 1/2, 1/5]
             = step_sizes tr @ step_sizes rest"
       "[(33 / 10, ev33)] = deliveries tr @ deliveries rest"
       "\<forall>s'. r = Inr s' \<longrightarrow> rest = []"
    by auto
  have "\<forall>tm' e. NetReceive tm' e \<in> set tr \<longrightarrow> ev_target e = 0"
  proof (intro allI impI)
    fix tm' e assume "NetReceive tm' e \<in> set tr"
    then have "(tm', e) \<in> set (deliveries tr @ deliveries rest)"
      using deliveries_mem [of tm' e tr] by simp
    then have "e = ev33" unfolding t(4) [symmetric] by simp
    then show "ev_target e = 0" by simp
  qed
  from soma_cell_runs [OF this, of 0 "(0, 0)" "[ev33]"] t(2)
  obtain s' where r: "r = Inr s'" by auto
  then have "rest = []" using t(5) by simp
  then show ?thesis
    using t r by (simp add: step_sizes_def deliveries_def)
qed

section \<open>Sub-steps and event delivery\<close>



text \<open>
  C4, amended. For an integrator at \<open>t = 0\<close> whose queue holds a single event at
  3.3 ms, \<open>advance_to(10, 0.5)\<close> returns, and a run without error takes the
  sub-steps 0.5 (six times), 0.3, 0.5 (thirteen times, from 3.3 to 9.8) and 0.2 (to
  reach 10), and delivers the event once, at \<open>t = 3.3\<close>; a run with an error takes
  the first of these sub-steps, up to the failing one. After the event the
  sub-steps are counted from the time of the event, not from the 0.5 ms grid.
\<close>

theorem advance_to_event_at_3_3:
  assumes "cell_t s = 0" and "events s = [e]" and "ev_time e = 33 / 10"
  shows "\<exists>tr r rest. advance_to 10 (1 / 2) s = Some (tr, r) \<and>
           [1/2, 1/2, 1/2, 1/2, 1/2, 1/2, 3/10,
            1/2, 1/2, 1/2, 1/2, 1/2, 1/2, 1/2, 1/2, 1/2, 1/2, 1/2, 1/2, 1/2, 1/5]
             = step_sizes tr @ rest \<and>
           (\<forall>s'. r = Inr s' \<longrightarrow> rest = [] \<and> deliveries tr = [(33 / 10, e)])"
proof -
  from steps_3_3 [OF assms] obtain tr r rest where
    t: "advance_to 10 (1 / 2) s = Some (tr, r)"
       "[1/2, 1/2, 1/2, 1/2, 1/2, 1/2, 3/10,
            1/2, 1/2, 1/2, 1/2, 1/2, 1/2, 1/2, 1/2, 1/2, 1/2, 1/2, 1/2, 1/2, 1/5]
             = step_sizes tr @ step_sizes rest"
       "[(33 / 10, e)] = deliveries tr @ deliveries rest"
       "\<forall>s'. r = Inr s' \<longrightarrow> rest = []"
    by blast
  have "\<forall>s'. r = Inr s' \<longrightarrow> step_sizes rest = [] \<and> deliveries tr = [(33 / 10, e)]"
  proof (intro allI impI)
    fix s' assume "r = Inr s'"
    then have "rest = []" using t(4) by simp
    then show "step_sizes rest = [] \<and> deliveries tr = [(33 / 10, e)]"
      using t(3) by (simp add: step_sizes_def deliveries_def)
  qed
  with t(1,2) show ?thesis by blast
qed

theorem advance_to_event_at_3_3_witness:
  "cell_t (soma_cell 0 (0, 0) [] [ev33]) = 0 \<and> events (soma_cell 0 (0, 0) [] [ev33]) = [ev33] \<and>
   ev_time ev33 = 33 / 10 \<and>
   advance_to_steps 10 (1 / 2) (soma_cell 0 (0, 0) [] [ev33]) =
     Some [1/2, 1/2, 1/2, 1/2, 1/2, 1/2, 3/10,
           1/2, 1/2, 1/2, 1/2, 1/2, 1/2, 1/2, 1/2, 1/2, 1/2, 1/2, 1/2, 1/2, 1/5]"
proof -
  have h: "cell_t (soma_cell 0 (0, 0) [] [ev33]) = 0"
    "events (soma_cell 0 (0, 0) [] [ev33]) = [ev33]" "ev_time ev33 = 33 / 10"
    by simp_all
  from advance_to_event_at_3_3 [OF h] obtain tr r rest where
    t: "advance_to 10 (1 / 2) (soma_cell 0 (0, 0) [] [ev33]) = Some (tr, r)"
       "[1/2, 1/2, 1/2, 1/2, 1/2, 1/2, 3/10,
         1/2, 1/2, 1/2, 1/2, 1/2, 1/2, 1/2, 1/2, 1/2, 1/2, 1/2, 1/2, 1/2, 1/5]
          = step_sizes tr @ rest"
       "\<forall>s'. r = Inr s' \<longrightarrow> rest = [] \<and> deliveries tr = [(33 / 10, ev33)]"
    by blast
  from soma33_run t(1) obtain s' where "r = Inr s'"
    by auto
  with t(3) have "rest = []"
    by simp
  with t(1,2) h show ?thesis
    by (simp add: advance_to_steps_def)
qed

text \<open>
  The first eight sub-steps of the run of C4 on the example soma: the sub-step after
  the event is 0.5 (from 3.3 to 3.8), not 0.2.
\<close>

theorem advance_to_event_at_3_3_counterexample:
  "map_option (take 8) (advance_to_steps 10 (1 / 2) (soma_cell 0 (0, 0) [] [ev33])) =
     Some [1/2, 1/2, 1/2, 1/2, 1/2, 1/2, 3/10, 1/2]"
proof -
  from soma33_run obtain tr s' where
    "advance_to 10 (1 / 2) (soma_cell 0 (0, 0) [] [ev33]) = Some (tr, Inr s')"
    "step_sizes tr = [1/2, 1/2, 1/2, 1/2, 1/2, 1/2, 3/10,
            1/2, 1/2, 1/2, 1/2, 1/2, 1/2, 1/2, 1/2, 1/2, 1/2, 1/2, 1/2, 1/2, 1/5]"
    by blast
  then show ?thesis
    by (simp add: advance_to_steps_def)
qed

section \<open>The state an error leaves behind\<close>

text \<open>
  C6, amended. When \<open>advance_to\<close> ends with an error, all calls before the last one
  of its trace have completed, the last one has failed, and the state left behind
  is the one the failing call leaves: if the failing call is an \<open>advance\<close> (a
  stimulus that fails, a numerical failure of the solve), the voltage and the time
  are those at the start of that sub-step; if it is the dispatch of an event (an
  unknown target), the state is exactly the one at the end of the completed
  sub-step, whose time is the time of the event. Nothing is restored: the current
  vector, the matrix and the state of the mechanisms keep what the failing
  sub-step has written before the error.
\<close>

theorem advance_to_failure:
  assumes "advance_to tfinal dt s = Some (tr, Inl (err, sf))"
  shows "tr \<noteq> [] \<and>
         (\<exists>s0. run_calls (butlast tr) s = Inr s0 \<and> run_call (last tr) s0 = Inl (err, sf) \<and>
            (case last tr of
               Advance tm h q \<Rightarrow> cell_voltage sf = cell_voltage s0 \<and> cell_t sf = cell_t s0
             | NetReceive tm e \<Rightarrow> sf = s0))"
proof -
  have loop: "advance_to_loop tfinal dt [] s = Some (tr, Inl (err, sf))"
    using assms by (simp add: advance_to_def split: if_splits)
  from advance_to_loop_run [OF loop] obtain s0 where
    tr: "tr \<noteq> []" "run_calls tr s = Inl (err, sf)" "run_calls (butlast tr) s = Inr s0"
    by auto
  have "run_calls (butlast tr @ [last tr]) s = run_call (last tr) s0"
    using tr(3) by (rule run_calls_snoc)
  then have "run_call (last tr) s0 = Inl (err, sf)"
    using tr by simp
  with run_call_Inl [OF this] tr show ?thesis
    by blast
qed

theorem advance_to_failure_witness:
  "advance_to 1 1 (soma_cell 0 (7, 7) [(0, failing_clamp)] []) =
     Some ([Advance 0 1 []], Inl (StimulusError, soma_cell 0 (0, 1) [(0, failing_clamp)] [])) \<and>
   cell_voltage (soma_cell 0 (0, 1) [(0, failing_clamp)] []) =
     cell_voltage (soma_cell 0 (7, 7) [(0, failing_clamp)] []) \<and>
   cell_t (soma_cell 0 (0, 1) [(0, failing_clamp)] []) =
     cell_t (soma_cell 0 (7, 7) [(0, failing_clamp)] [])"
  using advance_to_failure [OF fail1] fail1
  by simp

text \<open>
  A failing stimulus on the example soma: the error comes after \<open>set_params\<close> has
  run, so the state of the mechanism is no longer the one before the sub-step.
\<close>

theorem advance_to_failure_counterexample:
  "advance_to 1 1 (soma_cell 0 (7, 7) [(0, failing_clamp)] []) =
     Some ([Advance 0 1 []], Inl (StimulusError, soma_cell 0 (0, 1) [(0, failing_clamp)] [])) \<and>
   map mstate (mechanisms (soma_cell 0 (0, 1) [(0, failing_clamp)] [])) \<noteq>
     map mstate (mechanisms (soma_cell 0 (7, 7) [(0, failing_clamp)] []))"
  using fail1 by (simp add: soma_cell_def recorder_def)

section \<open>Construction: morphology errors\<close>

lemma segment_loop_error:
  "segment_loop f si k segs s = Inl e \<Longrightarrow> e = MorphologyError"
  by (induction segs arbitrary: k s) (auto simp: Let_def split: segment_body.splits if_splits)

lemma segment_loop_fails:
  "(\<exists>e. segment_loop f si k segs s = Inl e) \<longleftrightarrow>
     list_ex (\<lambda>p. bad_segment (fst p) (snd p)) (enumerate k segs)"
proof (induction segs arbitrary: k s)
  case Nil
  then show ?case by simp
next
  case (Cons sg segs)
  show ?case
  proof (cases "seg_body sg")
    case (Soma r)
    then show ?thesis
      using Cons.IH by (simp add: bad_segment_def Let_def)
  next
    case (Cable cs)
    then show ?thesis
      using Cons.IH by (simp add: bad_segment_def)
  next
    case Placeholder
    then show ?thesis
      by (simp add: bad_segment_def)
  qed
qed

lemma construct_fails:
  "(\<exists>e. construct X c = Inl e) \<longleftrightarrow> malformed c"
  using segment_loop_fails [of "area_frustrum X" "segment_index c" 0 "segments c" "initial_cell c"]
  by (auto simp: construct_def malformed_def Let_def split: sum.splits)

lemma construct_error:
  "construct X c = Inl e \<Longrightarrow> e = MorphologyError"
  using segment_loop_error [of "area_frustrum X" "segment_index c" 0 "segments c" "initial_cell c" e]
  by (auto simp: construct_def Let_def split: sum.splits)

lemma cables_not_bad:
  "list_all is_cable segs \<Longrightarrow> \<not> list_ex (\<lambda>p. bad_segment (fst p) (snd p)) (enumerate k segs)"
  by (induction segs arbitrary: k)
     (auto simp: is_cable_def bad_segment_def split: segment_body.splits)

lemma soma_first_not_malformed: "soma_first c \<Longrightarrow> \<not> malformed c"
  using cables_not_bad [of "tl (segments c)" 1]
  by (auto simp: soma_first_def malformed_def is_soma_def bad_segment_def
           split: list.splits segment_body.splits)

lemma example_soma_first: "soma_first example_cell"
  by (simp add: soma_first_def example_cell_def example_soma_def example_cable_def
        is_soma_def is_cable_def)

lemma reversed_malformed: "malformed reversed_cell"
  by (simp add: malformed_def reversed_cell_def example_cell_def example_soma_def
        example_cable_def bad_segment_def)



section \<open>Construction: ion species\<close>

lemma fold_insort_insert:
  "sorted acc \<Longrightarrow> distinct acc \<Longrightarrow>
   sorted (fold insort_insert xs acc) \<and> distinct (fold insort_insert xs acc) \<and>
   set (fold insort_insert xs acc) = set acc \<union> set (xs :: nat list)"
proof (induction xs arbitrary: acc)
  case Nil
  then show ?case by simp
next
  case (Cons x xs)
  have "sorted (insort_insert x acc)" "distinct (insort_insert x acc)"
    using Cons.prems by (simp_all add: sorted_insort_insert distinct_insort_insert)
  from Cons.IH [OF this] show ?case
    by (auto simp: set_insort_insert)
qed

lemma index_set_fold:
  "sorted acc \<Longrightarrow> distinct acc \<Longrightarrow>
   sorted (fold (\<lambda>mech st. if uses_ion mech kind then fold insort_insert (node_index mech) st else st) ms acc) \<and>
   distinct (fold (\<lambda>mech st. if uses_ion mech kind then fold insort_insert (node_index mech) st else st) ms acc) \<and>
   set (fold (\<lambda>mech st. if uses_ion mech kind then fold insort_insert (node_index mech) st else st) ms acc)
     = set acc \<union> (\<Union>m \<in> ion_users kind ms. set (node_index m))"
proof (induction ms arbitrary: acc)
  case Nil
  then show ?case by (simp add: ion_users_def)
next
  case (Cons m ms)
  show ?case
  proof (cases "uses_ion m kind")
    case True
    have "sorted (fold insort_insert (node_index m) acc)"
      "distinct (fold insort_insert (node_index m) acc)"
      and s: "set (fold insort_insert (node_index m) acc) = set acc \<union> set (node_index m)"
      using fold_insort_insert [OF Cons.prems, of "node_index m"] by simp_all
    from Cons.IH [OF this(1,2)] s True show ?thesis
      by (auto simp: ion_users_def)
  next
    case False
    with Cons.IH [OF Cons.prems] show ?thesis
      by (auto simp: ion_users_def)
  qed
qed

lemma index_set_union:
  "index_set kind ms = sorted_list_of_set (\<Union>m \<in> ion_users kind ms. set (node_index m))"
proof -
  have "sorted (index_set kind ms)" "distinct (index_set kind ms)"
    "set (index_set kind ms) = (\<Union>m \<in> ion_users kind ms. set (node_index m))"
    using index_set_fold [of "[]" kind ms] by (simp_all add: index_set_def)
  then show ?thesis
    by (metis sorted_list_of_set.idem_if_sorted_distinct)
qed

lemma index_set_empty: "ion_users kind ms = {} \<Longrightarrow> index_set kind ms = []"
  by (simp add: index_set_union)

lemma subscript_idem [simp]: "subscript (subscript m kind) kind = subscript m kind"
  by (simp add: subscript_def split: option.splits)

lemma join_loop:
  "mechanisms s = pre @ ms \<Longrightarrow>
   fold (join_ion kind) [length pre..<length pre + length ms] s =
     s\<lparr> ions := (if ion_users kind ms = {} then ions s else subscript (ions s) kind),
        mechanisms := pre @ map (bind_ions [kind]) ms \<rparr>"
proof (induction ms arbitrary: pre s)
  case Nil
  then show ?case by (simp add: ion_users_def)
next
  case (Cons m ms)
  let ?m' = "bind_ions [kind] m"
  let ?s = "join_ion kind (length pre) s"
  have step: "?s = s\<lparr> ions := (if uses_ion m kind then subscript (ions s) kind else ions s),
                     mechanisms := (pre @ [?m']) @ ms \<rparr>"
    using Cons.prems by (simp add: join_ion_def bind_ions_def)
  have "fold (join_ion kind) [length pre..<length pre + length (m # ms)] s =
        fold (join_ion kind) [length (pre @ [?m'])..<length (pre @ [?m']) + length ms] ?s"
    by (simp add: upt_conv_Cons del: upt_Suc)
  also have "\<dots> = ?s\<lparr> ions := (if ion_users kind ms = {} then ions ?s else subscript (ions ?s) kind),
        mechanisms := (pre @ [?m']) @ map (bind_ions [kind]) ms \<rparr>"
    by (rule Cons.IH) (simp add: step)
  finally show ?case
    by (auto simp: step ion_users_def)
qed

lemma bind_ions_sel [simp]:
  "uses_ion (bind_ions kinds m) = uses_ion m"
  "node_index (bind_ions kinds m) = node_index m"
  by (induction kinds arbitrary: m) (simp_all add: bind_ions_def set_ion_def)

lemma bind_ions_Cons:
  "bind_ions (kind # kinds) m = bind_ions kinds (bind_ions [kind] m)"
  by (simp add: bind_ions_def)

lemma ion_users_bind [simp]:
  "(\<Union>m \<in> ion_users kind (map (bind_ions kinds) ms). set (node_index m)) =
   (\<Union>m \<in> ion_users kind ms. set (node_index m))"
  by (auto simp: ion_users_def)

lemma ion_users_bind_empty [simp]:
  "ion_users kind (map (bind_ions kinds) ms) = {} \<longleftrightarrow> ion_users kind ms = {}"
  by (auto simp: ion_users_def)

lemma index_set_bind [simp]:
  "index_set kind (map (bind_ions kinds) ms) = index_set kind ms"
  by (simp add: index_set_union)

lemma ion_step_result:
  assumes "ions s kind = None"
  shows "ion_step kind s =
     s\<lparr> ions := (ions s)(kind := ion_entry kind (mechanisms s)),
        mechanisms := map (bind_ions [kind]) (mechanisms s) \<rparr>"
proof -
  let ?idx = "index_set kind (mechanisms s)"
  let ?s1 = "if ?idx \<noteq> [] then s\<lparr>ions := emplace (ions s) kind (new_ion ?idx)\<rparr> else s"
  have m: "mechanisms ?s1 = mechanisms s" by simp
  have "ion_step kind s = fold (join_ion kind) [0..<length (mechanisms s)] ?s1"
    by (simp add: ion_step_def Let_def)
  also have "\<dots> = ?s1\<lparr> ions := (if ion_users kind (mechanisms s) = {} then ions ?s1
                                  else subscript (ions ?s1) kind),
        mechanisms := map (bind_ions [kind]) (mechanisms s) \<rparr>"
    using join_loop [of ?s1 "[]" "mechanisms s" kind] m by simp
  also have "\<dots> = s\<lparr> ions := (ions s)(kind := ion_entry kind (mechanisms s)),
        mechanisms := map (bind_ions [kind]) (mechanisms s) \<rparr>"
    using assms index_set_empty [of kind "mechanisms s"]
    by (auto simp: ion_entry_def emplace_def subscript_def default_ion_def fun_upd_idem)
  finally show ?thesis .
qed

lemma ion_entry_bind [simp]:
  "ion_entry kind (map (bind_ions kinds) ms) = ion_entry kind ms"
  by (simp add: ion_entry_def)

lemma ion_loop:
  "distinct kinds \<Longrightarrow> \<forall>kind \<in> set kinds. ions s kind = None \<Longrightarrow>
   fold ion_step kinds s =
     s\<lparr> ions := (\<lambda>kind. if kind \<in> set kinds then ion_entry kind (mechanisms s) else ions s kind),
        mechanisms := map (bind_ions kinds) (mechanisms s) \<rparr>"
proof (induction kinds arbitrary: s)
  case Nil
  then show ?case by (simp add: bind_ions_def)
next
  case (Cons kind kinds)
  let ?s = "s\<lparr> ions := (ions s)(kind := ion_entry kind (mechanisms s)),
                 mechanisms := map (bind_ions [kind]) (mechanisms s) \<rparr>"
  have none: "ions s kind = None"
    using Cons.prems(2) by simp
  have step: "ion_step kind s = ?s"
    by (rule ion_step_result [OF none])
  have d: "distinct kinds" and notin: "kind \<notin> set kinds"
    using Cons.prems(1) by simp_all
  have rest: "\<forall>kind' \<in> set kinds. ions ?s kind' = None"
    using Cons.prems(2) notin by auto
  have "fold ion_step (kind # kinds) s = fold ion_step kinds ?s"
    by (simp add: step)
  also have "\<dots> = ?s\<lparr> ions := (\<lambda>kind'. if kind' \<in> set kinds then ion_entry kind' (mechanisms ?s)
                                     else ions ?s kind'),
        mechanisms := map (bind_ions kinds) (mechanisms ?s) \<rparr>"
    by (rule Cons.IH [OF d rest])
  also have "\<dots> = s\<lparr> ions := (\<lambda>kind'. if kind' \<in> set (kind # kinds)
                                     then ion_entry kind' (mechanisms s) else ions s kind'),
        mechanisms := map (bind_ions (kind # kinds)) (mechanisms s) \<rparr>"
  proof -
    have "(\<lambda>kind'. if kind' \<in> set kinds then ion_entry kind' (mechanisms ?s) else ions ?s kind') =
          (\<lambda>kind'. if kind' \<in> set (kind # kinds) then ion_entry kind' (mechanisms s) else ions s kind')"
      using notin by (auto simp: fun_eq_iff)
    moreover have "map (bind_ions kinds) (mechanisms ?s) = map (bind_ions (kind # kinds)) (mechanisms s)"
      by (simp add: bind_ions_Cons [of kind kinds])
    ultimately show ?thesis
      by simp
  qed
  finally show ?case .
qed

lemma ion_kinds_all: "kind \<in> set ion_kinds"
  by (cases kind) (simp_all add: ion_kinds_def)

lemma ion_kinds_distinct: "distinct ion_kinds"
  by (simp add: ion_kinds_def)

lemma assign_ion_upd:
  "assign_ion kind f m = m(kind \<mapsto> f (case m kind of None \<Rightarrow> default_ion | Some i \<Rightarrow> i))"
  by (simp add: assign_ion_def subscript_def Let_def split: option.splits)

lemma default_ion_values_result:
  "default_ion_values m =
     (\<lambda>kind. Some (case kind of
        ionKind_na \<Rightarrow> with_defaults 50 10 140 (m ionKind_na)
      | ionKind_k \<Rightarrow> with_defaults (- 77) (272 / 5) (5 / 2) (m ionKind_k)
      | ionKind_ca \<Rightarrow> with_defaults (25 / 2 * ln 40000) (1 / 20000) 2 (m ionKind_ca)))"
  by (rule ext)
     (simp add: default_ion_values_def assign_ion_upd Let_def DEF_vrest_def with_defaults_def
        set_reversal_potential_def set_internal_concentration_def set_external_concentration_def
        assign_const_def map_replicate_const
        split: ionKind.splits option.splits)

lemma add_synapses_sel:
  "ions (add_synapses X c s) = ions s"
  "\<exists>syn. mechanisms (add_synapses X c s) = mechanisms s @ [syn] \<and>
     (\<exists>idx. uses_ion syn = uses_ion (make_synapse X idx))"
  by (auto simp: add_synapses_def Let_def new_mechanism_def set_areas_def nth_append)

lemma construct_ions:
  fixes s :: "'m fvm_cell"
  assumes "construct X c = Inr s"
  shows "\<exists>syn idx.
           mechanisms s = map (bind_ions ion_kinds)
             (create_mechanisms X (segment_index c) (build_mech_map (segments c))) @ [syn] \<and>
           uses_ion syn = uses_ion (make_synapse X idx) \<and>
           ions s = default_ion_values (\<lambda>kind. ion_entry kind
             (create_mechanisms X (segment_index c) (build_mech_map (segments c))))"
proof -
  obtain s1 :: "'m fvm_cell" where
    s1: "segment_loop (area_frustrum X) (segment_index c) 0 (segments c) (initial_cell c) = Inr s1"
    using assms by (auto simp: construct_def split: sum.splits)
  define ms where "ms = create_mechanisms X (segment_index c) (build_mech_map (segments c))"
  define s3 where "s3 = (normalize_capacitance s1)\<lparr>mechanisms := ms\<rparr>"
  have frame: "ions (fold f xs s0) = ions s0"
    if "\<And>i s. ions (f i s) = ions s" for f :: "'b \<Rightarrow> 'm fvm_cell \<Rightarrow> 'm fvm_cell" and xs s0
    using that by (induction xs arbitrary: s0) simp_all
  have "ions (compartment_step fr st cm rl cp s0) = ions s0" for fr st cm rl cp and s0 :: "'m fvm_cell"
    by (simp add: compartment_step_def Let_def)
  then have comp: "ions (fold (compartment_step fr st cm rl) cps s0) = ions s0"
    for fr st cm rl cps and s0 :: "'m fvm_cell"
    by (rule frame)
  have "ions s' = ions s0" if "segment_loop fr si k segs s0 = Inr s'"
    for fr si k segs and s0 s' :: "'m fvm_cell"
    using that
    by (induction segs arbitrary: k s0)
       (auto simp: Let_def comp split: segment_body.splits if_splits)
  from this [OF s1] have "ions s1 = Map.empty"
    by (simp add: initial_cell_def)
  moreover have "ions (normalize_capacitance s1) = ions s1"
    unfolding normalize_capacitance_def by (rule frame) simp
  ultimately have e: "\<forall>kind \<in> set ion_kinds. ions s3 kind = None"
    by (simp add: s3_def)
  have m3: "mechanisms s3 = ms"
    by (simp add: s3_def)
  have s4: "fold ion_step ion_kinds s3 =
      s3\<lparr> ions := (\<lambda>kind. ion_entry kind ms), mechanisms := map (bind_ions ion_kinds) ms \<rparr>"
    using ion_loop [OF ion_kinds_distinct e] by (simp add: ion_kinds_all m3)
  let ?s6 = "s3\<lparr> mechanisms := map (bind_ions ion_kinds) ms,
                  ions := default_ion_values (\<lambda>kind. ion_entry kind ms),
                  stimulii := fold (\<lambda>stim sts. sts @ [(find_compartment_index X (fst stim)
                                                    (parent_index c) (segment_index c), snd stim)])
                          (cell_stimulii c) [] \<rparr>"
  have "s = add_synapses X c ?s6"
    using assms s1 by (simp add: construct_def Let_def s3_def [symmetric] ms_def [symmetric] s4)
  then show ?thesis
    using add_synapses_sel [of X c ?s6] by (auto simp: ms_def)
qed

lemma bind_ions_ref:
  "kind \<in> set kinds \<Longrightarrow> uses_ion m kind \<Longrightarrow> ion_ref (bind_ions kinds m) kind = Some kind"
proof (induction kinds arbitrary: m rule: rev_induct)
  case Nil
  then show ?case by simp
next
  case (snoc k kinds)
  have unfold: "bind_ions (kinds @ [k]) m =
      (if uses_ion m k then set_ion k k (bind_ions kinds m) else bind_ions kinds m)"
    using bind_ions_sel(1) [of kinds m] by (simp add: bind_ions_def)
  show ?case
  proof (cases "kind = k")
    case True
    then show ?thesis
      using snoc.prems by (simp add: unfold set_ion_def)
  next
    case False
    then have "kind \<in> set kinds"
      using snoc.prems by simp
    from snoc.IH [OF this snoc.prems(2)] False show ?thesis
      by (simp add: unfold set_ion_def)
  qed
qed

lemma with_defaults_sel [simp]:
  "ion_node_index (with_defaults e xi xo entry) =
     (case entry of None \<Rightarrow> [] | Some i \<Rightarrow> ion_node_index i)"
  by (simp add: with_defaults_def default_ion_def new_ion_def split: option.splits)

lemma default_ion_values_index:
  "\<exists>i. default_ion_values m kind = Some i \<and>
       ion_node_index i = (case m kind of None \<Rightarrow> [] | Some i \<Rightarrow> ion_node_index i)"
  by (cases kind) (simp_all add: default_ion_values_result)

lemma with_defaults_vectors:
  assumes "entry = None \<or> (\<exists>idx. entry = Some (new_ion idx))"
  shows "reversal_potential (with_defaults e xi xo entry) =
           replicate (length (ion_node_index (with_defaults e xi xo entry))) e \<and>
         internal_concentration (with_defaults e xi xo entry) =
           replicate (length (ion_node_index (with_defaults e xi xo entry))) xi \<and>
         external_concentration (with_defaults e xi xo entry) =
           replicate (length (ion_node_index (with_defaults e xi xo entry))) xo"
  using assms by (auto simp: with_defaults_def default_ion_def new_ion_def)

lemma ion_entry_cases: "ion_entry kind ms = None \<or> (\<exists>idx. ion_entry kind ms = Some (new_ion idx))"
  by (auto simp: ion_entry_def)

lemma example_mechanisms:
  "create_mechanisms example_collaborators (segment_index example_cell)
     (build_mech_map (segments example_cell)) =
   [(recorder (0, 0))\<lparr>node_index := [0], uses_ion := (\<lambda>kind. kind = ionKind_na)\<rparr>]"
  by (simp add: create_mechanisms_def build_mech_map_def example_cell_def example_soma_def
        example_cable_def example_collaborators_def new_mechanism_def compartment_index_def
        upt_rec)

lemma example_index_set:
  "index_set kind [(recorder (0, 0))\<lparr>node_index := [0], uses_ion := (\<lambda>kind. kind = ionKind_na)\<rparr>] =
     (if kind = ionKind_na then [0] else [])"
  by (simp add: index_set_def recorder_def insort_insert_key_def)

lemma example_construct:
  "\<exists>s syn. construct example_collaborators example_cell = Inr s \<and>
     mechanisms s = [bind_ions ion_kinds example_channel, syn] \<and>
     (\<forall>kind. \<not> uses_ion syn kind) \<and>
     ions s = default_ion_values (\<lambda>kind. ion_entry kind [example_channel])"
proof -
  have "\<not> malformed example_cell"
    by (rule soma_first_not_malformed [OF example_soma_first])
  then obtain s where s: "construct example_collaborators example_cell = Inr s"
    using construct_fails [of example_collaborators example_cell]
    by (cases "construct example_collaborators example_cell") auto
  from construct_ions [OF s] obtain syn idx where
    "mechanisms s = [bind_ions ion_kinds example_channel] @ [syn]"
    "uses_ion syn = uses_ion (make_synapse example_collaborators idx)"
    "ions s = default_ion_values (\<lambda>kind. ion_entry kind [example_channel])"
    unfolding example_mechanisms example_channel_def by auto
  moreover have "\<not> uses_ion (make_synapse example_collaborators idx) kind" for kind
    by (simp add: example_collaborators_def recorder_def)
  ultimately show ?thesis
    using s by auto
qed

lemma example_channel_sel [simp]:
  "uses_ion example_channel kind \<longleftrightarrow> kind = ionKind_na"
  "node_index example_channel = [0]"
  by (simp_all add: example_channel_def recorder_def)

lemma example_entry:
  "ion_entry kind [example_channel] = (if kind = ionKind_na then Some (new_ion [0]) else None)"
  using example_index_set [of kind]
  by (auto simp: ion_entry_def ion_users_def example_channel_def)



text \<open>
  C8. After construction the ion map holds: sodium with reversal potential
  \<open>115 + (-65) = 50\<close>, internal concentration \<open>10\<close> and external \<open>140\<close>; potassium
  with \<open>-12 + (-65) = -77\<close>, \<open>54.4\<close> and \<open>2.5\<close>; calcium with
  \<open>12.5 * ln (2 / 5e-5)\<close>, \<open>5e-5\<close> and \<open>2\<close>; each value at every index of the
  vectors of the ion.
\<close>

theorem default_ion_values_after_construction:
  fixes s :: "'m fvm_cell"
  assumes "construct X c = Inr s"
  shows "\<exists>na k ca.
           ions s ionKind_na = Some na \<and> ions s ionKind_k = Some k \<and> ions s ionKind_ca = Some ca \<and>
           reversal_potential na = replicate (length (ion_node_index na)) 50 \<and>
           internal_concentration na = replicate (length (ion_node_index na)) 10 \<and>
           external_concentration na = replicate (length (ion_node_index na)) 140 \<and>
           reversal_potential k = replicate (length (ion_node_index k)) (- 77) \<and>
           internal_concentration k = replicate (length (ion_node_index k)) (544 / 10) \<and>
           external_concentration k = replicate (length (ion_node_index k)) (25 / 10) \<and>
           reversal_potential ca = replicate (length (ion_node_index ca)) (125 / 10 * ln (2 / (5 / 100000))) \<and>
           internal_concentration ca = replicate (length (ion_node_index ca)) (5 / 100000) \<and>
           external_concentration ca = replicate (length (ion_node_index ca)) 2"
proof -
  define ms where "ms = create_mechanisms X (segment_index c) (build_mech_map (segments c))"
  from construct_ions [OF assms(1)] have
    i: "ions s = default_ion_values (\<lambda>kind. ion_entry kind ms)"
    unfolding ms_def by blast
  have "ions s ionKind_na = Some (with_defaults 50 10 140 (ion_entry ionKind_na ms))"
    "ions s ionKind_k = Some (with_defaults (- 77) (272 / 5) (5 / 2) (ion_entry ionKind_k ms))"
    "ions s ionKind_ca = Some (with_defaults (25 / 2 * ln 40000) (1 / 20000) 2 (ion_entry ionKind_ca ms))"
    by (simp_all add: i default_ion_values_result)
  then show ?thesis
    using with_defaults_vectors [OF ion_entry_cases, of 50 10 140 ionKind_na ms]
      with_defaults_vectors [OF ion_entry_cases, of "- 77" "272 / 5" "5 / 2" ionKind_k ms]
      with_defaults_vectors [OF ion_entry_cases, of "25 / 2 * ln 40000" "1 / 20000" 2 ionKind_ca ms]
    by simp
qed

theorem default_ion_values_after_construction_witness:
  "\<exists>s. construct example_collaborators example_cell = Inr s \<and>
     ions s ionKind_na =
       Some \<lparr> ion_node_index = [0], reversal_potential = [50],
              internal_concentration = [10], external_concentration = [140] \<rparr> \<and>
     ions s ionKind_k =
       Some \<lparr> ion_node_index = [], reversal_potential = [],
              internal_concentration = [], external_concentration = [] \<rparr> \<and>
     ions s ionKind_ca =
       Some \<lparr> ion_node_index = [], reversal_potential = [],
              internal_concentration = [], external_concentration = [] \<rparr>"
proof -
  from example_construct obtain s where
    s: "construct example_collaborators example_cell = Inr s"
    and i: "ions s = default_ion_values (\<lambda>kind. ion_entry kind [example_channel])"
    by blast
  from default_ion_values_after_construction [OF s] obtain na k ca where
    v: "ions s ionKind_na = Some na" "ions s ionKind_k = Some k" "ions s ionKind_ca = Some ca"
       "reversal_potential na = replicate (length (ion_node_index na)) 50"
       "internal_concentration na = replicate (length (ion_node_index na)) 10"
       "external_concentration na = replicate (length (ion_node_index na)) 140"
       "reversal_potential k = replicate (length (ion_node_index k)) (- 77)"
       "internal_concentration k = replicate (length (ion_node_index k)) (544 / 10)"
       "external_concentration k = replicate (length (ion_node_index k)) (25 / 10)"
       "reversal_potential ca = replicate (length (ion_node_index ca)) (125 / 10 * ln (2 / (5 / 100000)))"
       "internal_concentration ca = replicate (length (ion_node_index ca)) (5 / 100000)"
       "external_concentration ca = replicate (length (ion_node_index ca)) 2"
    by blast
  have idx: "ion_node_index na = [0]" "ion_node_index k = []" "ion_node_index ca = []"
    using v(1,2,3)
    by (auto simp: i default_ion_values_result example_entry new_ion_def with_defaults_def
          default_ion_def)
  have "na = \<lparr> ion_node_index = [0], reversal_potential = [50],
              internal_concentration = [10], external_concentration = [140] \<rparr>"
    "k = \<lparr> ion_node_index = [], reversal_potential = [],
              internal_concentration = [], external_concentration = [] \<rparr>"
    "ca = \<lparr> ion_node_index = [], reversal_potential = [],
              internal_concentration = [], external_concentration = [] \<rparr>"
    using v(4-12) idx by (auto intro!: ion.equality)
  with s v(1,2,3) show ?thesis
    by blast
qed

text \<open>
  C10. After construction the ion map has an entry for each of the three ion
  kinds; for a kind that no mechanism uses the entry is the default-constructed
  ion, whose empty vectors the assignment of the default values leaves empty.
\<close>

theorem ion_map_total:
  fixes s :: "'m fvm_cell"
  assumes "construct X c = Inr s"
  shows "(\<forall>kind. \<exists>i. ions s kind = Some i) \<and>
         (\<forall>kind. (\<forall>m \<in> set (mechanisms s). \<not> uses_ion m kind) \<longrightarrow> ions s kind = Some default_ion)"
proof -
  define ms where "ms = create_mechanisms X (segment_index c) (build_mech_map (segments c))"
  from construct_ions [OF assms(1)] obtain syn where
    m: "mechanisms s = map (bind_ions ion_kinds) ms @ [syn]"
    and i: "ions s = default_ion_values (\<lambda>kind. ion_entry kind ms)"
    unfolding ms_def by blast
  have "\<exists>i. ions s kind = Some i" for kind
    by (simp add: i default_ion_values_result)
  moreover have "ions s kind = Some default_ion"
    if "\<forall>m \<in> set (mechanisms s). \<not> uses_ion m kind" for kind
  proof -
    have "ion_users kind ms = {}"
      using that by (auto simp: m ion_users_def)
    then have "ion_entry kind ms = None"
      by (simp add: ion_entry_def)
    then show ?thesis
      by (cases kind)
         (simp_all add: i default_ion_values_result with_defaults_def default_ion_def new_ion_def)
  qed
  ultimately show ?thesis
    by blast
qed

theorem ion_map_total_witness:
  "\<exists>s. construct example_collaborators example_cell = Inr s \<and>
     (\<forall>m \<in> set (mechanisms s). \<not> uses_ion m ionKind_k) \<and>
     (\<forall>m \<in> set (mechanisms s). \<not> uses_ion m ionKind_ca) \<and>
     ions s ionKind_k = Some default_ion \<and> ions s ionKind_ca = Some default_ion \<and>
     (\<exists>i. ions s ionKind_na = Some i)"
proof -
  from example_construct obtain s syn where
    s: "construct example_collaborators example_cell = Inr s"
    and m: "mechanisms s = [bind_ions ion_kinds example_channel, syn]"
    and syn: "\<forall>kind. \<not> uses_ion syn kind"
    by blast
  have h: "\<forall>m \<in> set (mechanisms s). \<not> uses_ion m ionKind_k"
    "\<forall>m \<in> set (mechanisms s). \<not> uses_ion m ionKind_ca"
    using syn by (simp_all add: m)
  from ion_map_total [OF s] h s show ?thesis
    by blast
qed

section \<open>The passive cell keeps a uniform voltage\<close>

lemma child_sum_none:
  assumes "\<forall>c. 1 \<le> c \<and> c < n \<longrightarrow> par ! c < c" and "k \<le> Suc i" and "k \<le> n"
  shows "child_sum f par i k = 0"
proof -
  have "filter (\<lambda>c. par ! c = i) [1..<k] = []"
  proof (rule filter_False, rule ballI)
    fix c assume "c \<in> set [1..<k]"
    then have "1 \<le> c" "c < k" by simp_all
    with assms have "par ! c < c" "c \<le> i" by auto
    then show "par ! c \<noteq> i" by simp
  qed
  then show ?thesis
    by (simp add: child_sum_def)
qed

lemma eliminate_step:
  assumes shape: "hines_shape n m0" and inv: "hines_inv v n m0 (Suc k) m"
    and k: "1 \<le> k" "k < n"
  shows "mat_d m ! k \<noteq> 0 \<and> hines_inv v n m0 k (eliminate k m)"
proof -
  let ?d = "mat_d m" and ?r = "mat_rhs m"
  let ?l = "mat_l m0" and ?u = "mat_u m0" and ?p = "mat_p m0"
  let ?j = "?p ! k"
  have len: "length ?d = n" "length ?r = n" and same: "mat_l m = ?l" "mat_u m = ?u" "mat_p m = ?p"
    using inv by (simp_all add: hines_inv_def)
  have rows: "0 < row_sum m0 ?d (Suc k) i" "?r ! i = v * row_sum m0 ?d (Suc k) i" if "i < n" for i
    using inv that by (simp_all add: hines_inv_def)
  have tree: "\<forall>c. 1 \<le> c \<and> c < n \<longrightarrow> ?p ! c < c"
    using shape by (simp add: hines_shape_def)
  have j: "?j < k" and lk: "?l ! k \<le> 0" and uk: "?u ! k \<le> 0"
    using shape k by (simp_all add: hines_shape_def)
  have jn: "?j < n" using j k by simp
  have "child_sum (\<lambda>c. ?u ! c) ?p k (Suc k) = 0"
    using tree k by (intro child_sum_none [where n = n]) simp_all
  then have sk: "row_sum m0 ?d (Suc k) k = ?d ! k + ?l ! k"
    using k by (simp add: row_sum_def)
  have sk_pos: "0 < ?d ! k + ?l ! k" and rk: "?r ! k = v * (?d ! k + ?l ! k)"
    using rows [OF k(2)] sk by simp_all
  have dk: "0 < ?d ! k"
    using sk_pos lk by linarith
  define f where "f = ?u ! k / ?d ! k"
  have fd: "f * ?d ! k = ?u ! k"
    using dk by (simp add: f_def)
  let ?d' = "?d[?j := ?d ! ?j - f * ?l ! k]"
  let ?r' = "?r[?j := ?r ! ?j - f * ?r ! k]"
  have elim: "eliminate k m = m\<lparr>mat_d := ?d', mat_rhs := ?r'\<rparr>"
    by (simp add: eliminate_def Let_def same f_def)
  have sum: "row_sum m0 dg (Suc k) i =
      row_sum m0 dg k i + (if ?p ! k = i then ?u ! k else 0)" for dg i
    using k by (simp add: row_sum_def child_sum_Suc)
  have other: "row_sum m0 ?d' k i = row_sum m0 ?d (Suc k) i" "?r' ! i = ?r ! i"
    if "i < n" "i \<noteq> ?j" for i
    using that by (simp_all add: sum) (simp add: row_sum_def)
  have at_j: "row_sum m0 ?d' k ?j = row_sum m0 ?d (Suc k) ?j - f * ?l ! k - ?u ! k"
    using jn len by (simp add: sum) (simp add: row_sum_def)
  have rj: "?r' ! ?j = v * row_sum m0 ?d' k ?j"
  proof -
    have "?r' ! ?j = v * row_sum m0 ?d (Suc k) ?j - f * (v * (?d ! k + ?l ! k))"
      using jn len rows(2) [OF jn] rk by simp
    also have "\<dots> = v * (row_sum m0 ?d (Suc k) ?j - f * ?l ! k - f * ?d ! k)"
      by (simp add: algebra_simps)
    finally show ?thesis
      by (simp add: at_j fd)
  qed
  have pj: "0 < row_sum m0 ?d' k ?j"
  proof -
    have "0 \<le> - f * (?d ! k + ?l ! k)"
      using uk dk sk_pos by (simp add: f_def zero_le_mult_iff zero_le_divide_iff
          mult_le_0_iff divide_le_0_iff)
    moreover have "row_sum m0 ?d' k ?j = row_sum m0 ?d (Suc k) ?j + (- f * (?d ! k + ?l ! k))"
      using fd by (simp add: at_j algebra_simps)
    ultimately show ?thesis
      using rows(1) [OF jn] by linarith
  qed
  have "0 < row_sum m0 ?d' k i \<and> ?r' ! i = v * row_sum m0 ?d' k i" if "i < n" for i
  proof (cases "i = ?j")
    case True
    then show ?thesis using pj rj by simp
  next
    case False
    then show ?thesis
      using other [OF that False] rows [OF that] by simp
  qed
  then have "hines_inv v n m0 k (eliminate k m)"
    using len same by (simp add: elim hines_inv_def)
  with dk show ?thesis by simp
qed

lemma hines_inv_row:
  "hines_inv v n m0 k m \<Longrightarrow> i < n \<Longrightarrow>
   0 < row_sum m0 (mat_d m) k i \<and> mat_rhs m ! i = v * row_sum m0 (mat_d m) k i"
  by (simp add: hines_inv_def)

lemma backward_sweep_inv:
  assumes shape: "hines_shape n m0"
  shows "hines_inv v n m0 k m \<Longrightarrow> 1 \<le> k \<Longrightarrow> k \<le> n \<Longrightarrow>
         \<exists>m'. backward_sweep (rev [1..<k]) m = Inr m' \<and> hines_inv v n m0 1 m'"
proof (induction k arbitrary: m)
  case 0
  then show ?case by simp
next
  case (Suc k)
  show ?case
  proof (cases "k = 0")
    case True
    then show ?thesis using Suc.prems by simp
  next
    case False
    then have k: "1 \<le> k" "k < n" using Suc.prems by simp_all
    from eliminate_step [OF shape Suc.prems(1) k]
    have d: "mat_d m ! k \<noteq> 0" and inv: "hines_inv v n m0 k (eliminate k m)"
      by simp_all
    have "rev [1..<Suc k] = k # rev [1..<k]"
      using k by simp
    then have "backward_sweep (rev [1..<Suc k]) m = backward_sweep (rev [1..<k]) (eliminate k m)"
      using d by simp
    moreover have "\<exists>m'. backward_sweep (rev [1..<k]) (eliminate k m) = Inr m' \<and> hines_inv v n m0 1 m'"
      using k by (intro Suc.IH [OF inv]) simp_all
    ultimately show ?thesis by simp
  qed
qed

lemma substitute_inv:
  assumes shape: "hines_shape n m0" and m1: "hines_inv v n m0 1 m1"
  shows "k \<le> n \<Longrightarrow> 1 \<le> k \<Longrightarrow> forward_inv v n m1 1 m \<Longrightarrow>
         forward_inv v n m1 k (fold substitute [1..<k] m)"
proof (induction k)
  case 0
  then show ?case by simp
next
  case (Suc k)
  show ?case
  proof (cases "k = 0")
    case True
    then show ?thesis using Suc.prems by simp
  next
    case False
    then have k: "1 \<le> k" "k < n" using Suc.prems by simp_all
    define m2 where "m2 = fold substitute [1..<k] m"
    have inv: "forward_inv v n m1 k m2"
      using Suc k by (simp add: m2_def)
    have tree: "mat_p m0 ! k < k" and lk: "mat_l m0 ! k \<le> 0"
      using shape k by (simp_all add: hines_shape_def)
    have same: "mat_l m1 = mat_l m0" "mat_p m1 = mat_p m0" "mat_u m1 = mat_u m0"
      "length (mat_d m1) = n"
      using m1 by (simp_all add: hines_inv_def)
    have "child_sum (\<lambda>c. mat_u m0 ! c) (mat_p m0) k 1 = 0"
      by simp
    then have row: "row_sum m0 (mat_d m1) 1 k = mat_d m1 ! k + mat_l m0 ! k"
      using k by (simp add: row_sum_def)
    have pos: "0 < mat_d m1 ! k + mat_l m0 ! k"
      and rk: "mat_rhs m1 ! k = v * (mat_d m1 ! k + mat_l m0 ! k)"
      using hines_inv_row [OF m1 k(2)] row by simp_all
    have dk: "mat_d m1 ! k \<noteq> 0"
      using pos lk by linarith
    have pk: "mat_rhs m2 ! (mat_p m0 ! k) = v"
      using inv tree k by (simp add: forward_inv_def)
    have cur: "mat_rhs m2 ! k = v * (mat_d m1 ! k + mat_l m0 ! k)"
      using inv k rk by (simp add: forward_inv_def)
    have new: "(mat_rhs m2 ! k - mat_l m2 ! k * mat_rhs m2 ! (mat_p m2 ! k)) / mat_d m2 ! k = v"
    proof -
      have "mat_l m2 = mat_l m0" "mat_p m2 = mat_p m0" "mat_d m2 = mat_d m1"
        using inv same by (simp_all add: forward_inv_def)
      then show ?thesis
        using dk by (simp add: pk cur algebra_simps)
    qed
    have "fold substitute [1..<Suc k] m = substitute k m2"
      using k by (simp add: m2_def)
    moreover have "forward_inv v n m1 (Suc k) (substitute k m2)"
      using inv k new
      by (auto simp: forward_inv_def substitute_def nth_list_update less_Suc_eq)
    ultimately show ?thesis by simp
  qed
qed

lemma solve_uniform:
  assumes shape: "hines_shape n m0" and inv: "hines_inv v n m0 n m0"
  shows "\<exists>m'. solve m0 = Inr m' \<and> mat_rhs m' = replicate n v"
proof (cases "n = 0")
  case True
  then show ?thesis
    using inv by (simp add: solve_def hines_inv_def)
next
  case False
  then have n: "1 \<le> n" by simp
  have len: "length (mat_d m0) = n"
    using inv by (simp add: hines_inv_def)
  from backward_sweep_inv [OF shape inv n] obtain m1 where
    b: "backward_sweep (rev [1..<n]) m0 = Inr m1" and m1: "hines_inv v n m0 1 m1"
    by auto
  have "row_sum m0 (mat_d m1) 1 0 = mat_d m1 ! 0"
    by (simp add: row_sum_def)
  then have d0: "0 < mat_d m1 ! 0" and r0: "mat_rhs m1 ! 0 = v * mat_d m1 ! 0"
    using hines_inv_row [OF m1, of 0] n by simp_all
  let ?m = "m1\<lparr>mat_rhs := (mat_rhs m1)[0 := mat_rhs m1 ! 0 / mat_d m1 ! 0]\<rparr>"
  have "forward_inv v n m1 1 ?m"
    using m1 n d0 r0 by (auto simp: forward_inv_def hines_inv_def nth_list_update)
  from substitute_inv [OF shape m1 _ n this]
  have f: "forward_inv v n m1 n (fold substitute [1..<n] ?m)"
    by simp
  have s: "solve m0 = Inr (fold substitute [1..<n] ?m)"
    using False len b d0 by (simp add: solve_def Let_def)
  have "mat_rhs (fold substitute [1..<n] ?m) = replicate n v"
    using f by (intro nth_equalityI) (simp_all add: forward_inv_def)
  with s show ?thesis by simp
qed

lemma setup_matrix_entries:
  assumes "well_sized n s"
  shows "length (mat_d (cell_matrix (setup_matrix dt s))) = n"
    and "length (mat_l (cell_matrix (setup_matrix dt s))) = n"
    and "length (mat_u (cell_matrix (setup_matrix dt s))) = n"
    and "length (mat_rhs (cell_matrix (setup_matrix dt s))) = n"
    and "mat_p (cell_matrix (setup_matrix dt s)) = mat_p (cell_matrix s)"
    and "\<And>i. i < n \<Longrightarrow> mat_d (cell_matrix (setup_matrix dt s)) ! i =
           cv_areas s ! i + (if 1 \<le> i then 100000 * dt * face_alpha s ! i else 0)
             + child_sum (\<lambda>c. 100000 * dt * face_alpha s ! c) (mat_p (cell_matrix s)) i n"
    and "\<And>i. 1 \<le> i \<Longrightarrow> i < n \<Longrightarrow>
           mat_l (cell_matrix (setup_matrix dt s)) ! i = - (100000 * dt * face_alpha s ! i)"
    and "\<And>i. 1 \<le> i \<Longrightarrow> i < n \<Longrightarrow>
           mat_u (cell_matrix (setup_matrix dt s)) ! i = - (100000 * dt * face_alpha s ! i)"
    and "\<And>i. i < n \<Longrightarrow> mat_rhs (cell_matrix (setup_matrix dt s)) ! i =
           cv_areas s ! i * (cell_voltage s ! i - 10 * dt * cell_current s ! i / cv_capacitance s ! i)"
proof -
  let ?m0 = "(cell_matrix s)\<lparr>mat_d := assign_all (mat_d (cell_matrix s)) (cv_areas s)\<rparr>"
  let ?m1 = "fold (diag_step dt (face_alpha s)) [1..<n] ?m0"
  have len: "length (mat_d (cell_matrix s)) = n" "length (mat_rhs (cell_matrix s)) = n"
    using assms by (simp_all add: well_sized_def)
  have inv: "diag_inv dt (face_alpha s) n ?m0 n ?m1"
    by (rule setup_matrix_diag [OF assms])
  have m': "cell_matrix (setup_matrix dt s) = fold (rhs_step (10 * dt) s) [0..<n] ?m1"
    using inv len by (simp add: setup_matrix_def Let_def diag_inv_def assign_all_def)
  have rl: "n \<le> length (mat_rhs ?m1)"
    using inv len by (simp add: diag_inv_def)
  have m'': "cell_matrix (setup_matrix dt s) =
      ?m1\<lparr>mat_rhs := map (\<lambda>i. if i < n
            then cv_areas s ! i * (cell_voltage s ! i - 10 * dt / cv_capacitance s ! i * cell_current s ! i)
            else mat_rhs ?m1 ! i) [0..<length (mat_rhs ?m1)]\<rparr>"
    unfolding m' by (rule rhs_loop [OF rl])
  have r1: "length (mat_rhs ?m1) = n"
    using inv len by (simp add: diag_inv_def)
  show "length (mat_d (cell_matrix (setup_matrix dt s))) = n"
    "length (mat_l (cell_matrix (setup_matrix dt s))) = n"
    "length (mat_u (cell_matrix (setup_matrix dt s))) = n"
    "length (mat_rhs (cell_matrix (setup_matrix dt s))) = n"
    "mat_p (cell_matrix (setup_matrix dt s)) = mat_p (cell_matrix s)"
    using inv r1 by (simp_all add: m'' diag_inv_def)
  show "mat_d (cell_matrix (setup_matrix dt s)) ! i =
           cv_areas s ! i + (if 1 \<le> i then 100000 * dt * face_alpha s ! i else 0)
             + child_sum (\<lambda>c. 100000 * dt * face_alpha s ! c) (mat_p (cell_matrix s)) i n"
    if "i < n" for i
    using inv len that by (simp add: m'' diag_inv_def assign_all_def)
  show "mat_l (cell_matrix (setup_matrix dt s)) ! i = - (100000 * dt * face_alpha s ! i)"
    if "1 \<le> i" "i < n" for i
    using inv that by (simp add: m'' diag_inv_def)
  show "mat_u (cell_matrix (setup_matrix dt s)) ! i = - (100000 * dt * face_alpha s ! i)"
    if "1 \<le> i" "i < n" for i
    using inv that by (simp add: m'' diag_inv_def)
  show "mat_rhs (cell_matrix (setup_matrix dt s)) ! i =
           cv_areas s ! i * (cell_voltage s ! i - 10 * dt * cell_current s ! i / cv_capacitance s ! i)"
    if "i < n" for i
    using r1 that by (simp add: m'')
qed

lemma child_sum_cong:
  "(\<And>c. 1 \<le> c \<Longrightarrow> c < k \<Longrightarrow> f c = g c) \<Longrightarrow> child_sum f par i k = child_sum g par i k"
  unfolding child_sum_def by (rule arg_cong [where f = sum_list]) (rule map_cong, simp_all)

lemma sum_list_map_uminus: "sum_list (map (\<lambda>c. - f c) xs) = - sum_list (map f xs :: real list)"
  by (induction xs) simp_all

lemma child_sum_uminus: "child_sum (\<lambda>c. - f c) par i k = - child_sum f par i k"
  unfolding child_sum_def by (rule sum_list_map_uminus)

lemma child_sum_mult: "child_sum (\<lambda>c. f c * v) par i k = child_sum f par i k * v"
  unfolding child_sum_def by (simp add: sum_list_mult_const)

lemma passive_system_inv:
  fixes s :: "'m fvm_cell"
  assumes ws: "well_sized n s"
    and tree: "list_all (\<lambda>i. mat_p (cell_matrix s) ! i < i) [1..<n]"
    and areas: "list_all (\<lambda>a. 0 < a) (cv_areas s)"
    and alpha: "list_all (\<lambda>a. 0 \<le> a) (face_alpha s)"
    and dt: "0 \<le> dt"
    and V: "cell_voltage s = replicate n v"
  shows "hines_shape n (passive_system dt s)"
    and "hines_inv v n (passive_system dt s) n (passive_system dt s)"
    and "\<And>i. i < n \<Longrightarrow> mat_rhs (passive_system dt s) ! i = cv_areas s ! i * v"
proof -
  let ?s0 = "s\<lparr>cell_current := assign_const (cell_current s) 0\<rparr>"
  let ?M = "passive_system dt s"
  let ?a = "\<lambda>c. 100000 * dt * face_alpha s ! c"
  have lens: "length (cv_areas s) = n" "length (face_alpha s) = n" "length (cell_current s) = n"
    using ws by (simp_all add: well_sized_def)
  have ws0: "well_sized n ?s0"
    using ws by (simp add: well_sized_def assign_const_def)
  note e0 = setup_matrix_entries [OF ws0, where dt = dt, folded passive_system_def]
  have e: "length (mat_d ?M) = n" "length (mat_l ?M) = n" "length (mat_u ?M) = n"
      "length (mat_rhs ?M) = n" "mat_p ?M = mat_p (cell_matrix s)"
    using e0(1-5) by simp_all
  have ed: "mat_d ?M ! i = cv_areas s ! i + (if 1 \<le> i then ?a i else 0)
             + child_sum ?a (mat_p (cell_matrix s)) i n" if "i < n" for i
    using e0(6) [OF that] by simp
  have el: "mat_l ?M ! i = - ?a i" and eu: "mat_u ?M ! i = - ?a i" if "1 \<le> i" "i < n" for i
    using e0(7,8) [OF that] by simp_all
  have er: "mat_rhs ?M ! i = cv_areas s ! i * v" if "i < n" for i
    using e0(9) [OF that] that lens by (simp add: V assign_const_def)
  have p: "mat_p (cell_matrix s) ! i < i" if "1 \<le> i" "i < n" for i
    using tree that by (simp add: list_all_iff)
  have A: "0 < cv_areas s ! i" if "i < n" for i
    using areas that lens by (simp add: list_all_length)
  have a: "0 \<le> ?a i" if "i < n" for i
    using alpha that lens dt by (simp add: list_all_length)
  have lp: "length (mat_p (cell_matrix s)) = n"
    using ws by (simp add: well_sized_def)
  show shape: "hines_shape n ?M"
    unfolding hines_shape_def
    using e el eu p a lp by simp
  have cs: "child_sum (\<lambda>c. mat_u ?M ! c) (mat_p ?M) i n = - child_sum ?a (mat_p (cell_matrix s)) i n"
    for i
  proof -
    have "child_sum (\<lambda>c. mat_u ?M ! c) (mat_p ?M) i n =
          child_sum (\<lambda>c. - ?a c) (mat_p (cell_matrix s)) i n"
      unfolding e(5) using eu by (intro child_sum_cong) simp
    then show ?thesis
      by (simp add: child_sum_uminus)
  qed
  have row: "row_sum ?M (mat_d ?M) n i = cv_areas s ! i" if "i < n" for i
    using that ed [OF that] el [of i] cs [of i] by (simp add: row_sum_def)
  show "mat_rhs ?M ! i = cv_areas s ! i * v" if "i < n" for i
    by (rule er [OF that])
  show "hines_inv v n ?M n ?M"
    unfolding hines_inv_def using e(1,4) row er A by simp
qed

lemma replicate_solves:
  assumes shape: "hines_shape n m" and inv: "hines_inv v n m n m"
  shows "solves m (replicate n v)"
proof -
  have len: "length (mat_d m) = n"
    using inv by (simp add: hines_inv_def)
  have "row_value m (replicate n v) i = mat_rhs m ! i" if "i < n" for i
  proof -
    have p: "mat_p m ! i < n" if "1 \<le> i" 
      using shape that \<open>i < n\<close> by (auto simp: hines_shape_def dest: less_trans)
    have "sum_list (map (\<lambda>c. mat_u m ! c * replicate n v ! c)
             (filter (\<lambda>c. mat_p m ! c = i) [1..<n])) =
          child_sum (\<lambda>c. mat_u m ! c * v) (mat_p m) i n"
      unfolding child_sum_def
      by (rule arg_cong [where f = sum_list]) (rule map_cong, simp_all)
    also have "\<dots> = child_sum (\<lambda>c. mat_u m ! c) (mat_p m) i n * v"
      by (rule child_sum_mult)
    finally have "row_value m (replicate n v) i = v * row_sum m (mat_d m) n i"
      using that p by (simp add: row_value_def row_sum_def len algebra_simps)
    then show ?thesis
      using hines_inv_row [OF inv that] by simp
  qed
  then show ?thesis
    by (simp add: solves_def len list_all_iff)
qed

lemma passive_advance:
  assumes "mechanisms s = []" and "stimulii s = []"
  shows "advance dt s =
     (case solve (passive_system dt s) of
        Inl x \<Rightarrow> Inl (fst x, (setup_matrix dt (s\<lparr>cell_current := assign_const (cell_current s) 0\<rparr>))
                            \<lparr>cell_matrix := snd x\<rparr>)
      | Inr m \<Rightarrow> Inr (s\<lparr> cell_t := cell_t s + dt, cell_matrix := m,
                        cell_current := assign_const (cell_current s) 0,
                        cell_voltage := assign_all (cell_voltage s) (mat_rhs m) \<rparr>))"
  using assms
  by (simp add: advance_def passive_system_def Let_def split: sum.split)

lemma cable2_uniform_sized: "well_sized 2 cable2_uniform"
  by (simp add: well_sized_def cable2_uniform_def cable2_def)

lemma cable2_system:
  "passive_system (1 / 100000) cable2 =
     \<lparr> mat_l = [0, - 1], mat_d = [2, 2], mat_u = [0, - 1], mat_rhs = [0, 1], mat_p = [0, 0] \<rparr>"
  by (simp add: passive_system_def setup_matrix_def cable2_def assign_all_def assign_const_def
        diag_step_def rhs_step_def upt_rec)

lemma cable2_solve:
  "solve \<lparr> mat_l = [0, - 1], mat_d = [2, 2], mat_u = [0, - 1], mat_rhs = [0, 1], mat_p = [0, 0] \<rparr> =
     Inr \<lparr> mat_l = [0, - 1], mat_d = [3 / 2, 2], mat_u = [0, - 1], mat_rhs = [1 / 3, 2 / 3],
           mat_p = [0, 0] \<rparr>"
  by (simp add: solve_def eliminate_def substitute_def upt_rec)




end
